theory Spec2Isabelle
  imports Main "HOL-Library.Multiset" "HOL-Library.Sublist"
begin

section \<open>Data model\<close>

text \<open>
  A user record as the server's \<^verbatim>\<open>createUser\<close> builds it and as \<^verbatim>\<open>UserList\<close> reads
  it: \<^verbatim>\<open>{ id, name, age, email }\<close>. The field \<^verbatim>\<open>id\<close> is written \<open>id'\<close>, since
  \<open>id\<close> is the identity function of HOL. Identifiers and ages are integers.
\<close>

record user =
  id' :: int
  name :: string
  age :: int
  email :: string

text \<open>
  The value \<^verbatim>\<open>JSON.parse\<close> returns. Numbers are restricted to the integers, which is
  what the server writes for \<^verbatim>\<open>id\<close> and \<^verbatim>\<open>age\<close>. \<^verbatim>\<open>JSON.parse\<close> itself belongs to
  the platform: it is the parameter \<open>JSON_parse\<close> below, with \<open>None\<close> for a
  \<^verbatim>\<open>SyntaxError\<close>. \<open>error\<close> lists the exceptions that the code below catches.
\<close>

datatype error = SyntaxError | TypeError | InvalidUserData

datatype json =
    JNull
  | JBool bool
  | JNum int
  | JStr string
  | JArr "json list"
  | JObj "(string \<times> json) list"

text \<open>
  \<^verbatim>\<open>user.id\<close>, \<^verbatim>\<open>user.name\<close>: reading a property of \<^verbatim>\<open>null\<close> throws a
  \<^verbatim>\<open>TypeError\<close>; an object gives the value stored under the key, and \<^verbatim>\<open>undefined\<close>
  (\<open>None\<close>) when there is none; numbers, strings, booleans and arrays have neither an
  \<^verbatim>\<open>id\<close> nor a \<^verbatim>\<open>name\<close>. An object that \<^verbatim>\<open>JSON.parse\<close> returns holds each of its
  keys once.
\<close>

fun get_prop :: "json \<Rightarrow> string \<Rightarrow> error + json option" where
  "get_prop JNull k = Inl TypeError"
| "get_prop (JObj kvs) k = Inr (map_of kvs k)"
| "get_prop v k = Inr None"

text \<open>
  Truthiness, for \<^verbatim>\<open>!user.id\<close>: \<^verbatim>\<open>undefined\<close>, \<^verbatim>\<open>null\<close>, \<^verbatim>\<open>false\<close>, \<^verbatim>\<open>0\<close> and
  \<^verbatim>\<open>""\<close> are falsy, every other value is truthy.
\<close>

fun truthy :: "json option \<Rightarrow> bool" where
  "truthy None = False"
| "truthy (Some JNull) = False"
| "truthy (Some (JBool b)) = b"
| "truthy (Some (JNum n)) = (n \<noteq> 0)"
| "truthy (Some (JStr s)) = (s \<noteq> [])"
| "truthy (Some (JArr vs)) = True"
| "truthy (Some (JObj kvs)) = True"

text \<open>
  \<^verbatim>\<open>u.id === user.id\<close>: numbers, strings and booleans are compared by value; an array or
  an object is equal only to itself, and two calls of \<^verbatim>\<open>JSON.parse\<close> never return the
  same array or object.
\<close>

fun strict_eq :: "json option \<Rightarrow> json option \<Rightarrow> bool" where
  "strict_eq None None = True"
| "strict_eq (Some JNull) (Some JNull) = True"
| "strict_eq (Some (JBool a)) (Some (JBool b)) = (a = b)"
| "strict_eq (Some (JNum a)) (Some (JNum b)) = (a = b)"
| "strict_eq (Some (JStr a)) (Some (JStr b)) = (a = b)"
| "strict_eq a b = False"

text \<open>The value of \<^verbatim>\<open>u.id\<close> for a record \<open>u\<close> that is already accepted.\<close>

definition id_of :: "json \<Rightarrow> json option" where
  "id_of u = (case get_prop u ''id'' of Inl e \<Rightarrow> None | Inr v \<Rightarrow> v)"

text \<open>
  The value that \<^verbatim>\<open>JSON.parse\<close> returns for a user record as the server writes it
  (\<^verbatim>\<open>createUser\<close>).
\<close>

definition to_json :: "user \<Rightarrow> json" where
  "to_json u =
     JObj [(''id'', JNum (id' u)), (''name'', JStr (name u)), (''age'', JNum (age u)),
           (''email'', JStr (email u))]"

section \<open>Processing dispatcher: filter and sort\<close>

text \<open>
  \<^verbatim>\<open>Array.prototype.sort\<close> with a comparator is a stable sort (ECMAScript 2019): an
  element moves in front of another one only if the comparator says so. It is modelled as
  the stable insertion sort that inserts, from the right, each element in front of the
  first element it does not compare greater than. (For a comparator that is not a
  consistent order the standard leaves the result to the implementation.)
\<close>

fun insert_cmp :: "('a \<Rightarrow> 'a \<Rightarrow> int) \<Rightarrow> 'a \<Rightarrow> 'a list \<Rightarrow> 'a list" where
  "insert_cmp cmp x [] = [x]"
| "insert_cmp cmp x (y # ys) =
     (if cmp x y \<le> 0 then x # y # ys else y # insert_cmp cmp x ys)"

definition js_sort :: "('a \<Rightarrow> 'a \<Rightarrow> int) \<Rightarrow> 'a list \<Rightarrow> 'a list" where
  "js_sort cmp xs = foldr (insert_cmp cmp) xs []"

text \<open>
  The worker, \<^verbatim>\<open>self.onmessage\<close> of \<^verbatim>\<open>worker.js\<close>. The message carries \<^verbatim>\<open>users\<close>,
  \<^verbatim>\<open>minAge\<close> and \<^verbatim>\<open>sortBy\<close>; the answer carries \<^verbatim>\<open>sortedUsers\<close> (and a processing
  time, which is a reading of the clock and is not modelled).
  \<^verbatim>\<open>String.prototype.localeCompare\<close> belongs to the platform and is the parameter
  \<open>localeCompare\<close>.
\<close>

definition worker_filteredUsers :: "user list \<Rightarrow> int \<Rightarrow> user list" where
  "worker_filteredUsers us minAge = filter (\<lambda>user. age user > minAge) us"

definition worker_onmessage ::
  "(string \<Rightarrow> string \<Rightarrow> int) \<Rightarrow> user list \<Rightarrow> int \<Rightarrow> string \<Rightarrow> user list" where
  "worker_onmessage localeCompare us minAge sortBy =
     (let filteredUsers = worker_filteredUsers us minAge;
          sortedUsers = js_sort (\<lambda>a b.
            if sortBy = ''name''
            then localeCompare (name a) (name b)
            else age a - age b) filteredUsers
      in sortedUsers)"

text \<open>
  The state of the \<^verbatim>\<open>App\<close> component that the operations below read and write:
  \<^verbatim>\<open>users\<close>, \<^verbatim>\<open>loading\<close>, \<^verbatim>\<open>dataSource\<close> (\<open>None\<close> for \<^verbatim>\<open>null\<close>). The \<^verbatim>\<open>metrics\<close>
  are differences of \<^verbatim>\<open>performance.now()\<close> readings and are left out. \<open>'u\<close> is the type of
  the elements of \<^verbatim>\<open>users\<close>: user records for the dispatcher, and any value of a reply for
  \<^verbatim>\<open>fetchParallelData\<close>, which stores what the server sent.
\<close>

record 'u app =
  users :: "'u list"
  loading :: bool
  dataSource :: "string option"

text \<open>
  \<^verbatim>\<open>processWithWorker\<close>: nothing happens on an empty \<^verbatim>\<open>users\<close>; otherwise the message
  is posted and the handler of the answer stores \<^verbatim>\<open>e.data.users\<close>. A worker that the
  browser cannot start gives no answer (\<^verbatim>\<open>onerror\<close> prints the error and \<^verbatim>\<open>users\<close> stays
  as it is); the model is of the worker that runs.
\<close>

definition processWithWorker ::
  "(string \<Rightarrow> string \<Rightarrow> int) \<Rightarrow> int \<Rightarrow> string \<Rightarrow> user app \<Rightarrow> user app" where
  "processWithWorker localeCompare minAge sortBy st =
     (if length (users st) = 0 then st
      else st\<lparr>users := worker_onmessage localeCompare (users st) minAge sortBy\<rparr>)"

text \<open>\<^verbatim>\<open>processInMainThread\<close> of \<^verbatim>\<open>App.js\<close>.\<close>

definition main_filteredUsers :: "user list \<Rightarrow> int \<Rightarrow> user list" where
  "main_filteredUsers us minAge = filter (\<lambda>user. age user > minAge) us"

definition processInMainThread ::
  "(string \<Rightarrow> string \<Rightarrow> int) \<Rightarrow> int \<Rightarrow> string \<Rightarrow> user app \<Rightarrow> user app" where
  "processInMainThread localeCompare minAge sortBy st =
     (let filteredUsers = main_filteredUsers (users st) minAge;
          sortedUsers = js_sort (\<lambda>a b.
            if sortBy = ''name''
            then localeCompare (name a) (name b)
            else age a - age b) filteredUsers
      in st\<lparr>users := sortedUsers\<rparr>)"

text \<open>\<^verbatim>\<open>handleProcessData\<close> chooses the path from the \<^verbatim>\<open>useWorker\<close> toggle.\<close>

definition handleProcessData ::
  "bool \<Rightarrow> (string \<Rightarrow> string \<Rightarrow> int) \<Rightarrow> int \<Rightarrow> string \<Rightarrow> user app \<Rightarrow> user app" where
  "handleProcessData useWorker localeCompare minAge sortBy st =
     (if useWorker then processWithWorker localeCompare minAge sortBy st
      else processInMainThread localeCompare minAge sortBy st)"

section \<open>Expiring cache\<close>

text \<open>
  \<^verbatim>\<open>localStorage\<close> is a map from keys to stored items. An item is written by
  \<^verbatim>\<open>JSON.stringify\<close> and read back by \<^verbatim>\<open>JSON.parse\<close>; on the objects
  \<^verbatim>\<open>{ data, timestamp }\<close> stored here the two are inverse, so the map holds the object
  itself. \<^verbatim>\<open>Date.now()\<close> is the parameter \<open>now\<close>, in milliseconds. \<open>'u\<close> is the type of
  the elements of \<^verbatim>\<open>data\<close>, as for \<^verbatim>\<open>users\<close>.
\<close>

record 'u cacheData =
  data :: "'u list"
  timestamp :: int

type_synonym 'u localStorage = "string \<rightharpoonup> 'u cacheData"

definition CACHE_EXPIRY :: int where
  "CACHE_EXPIRY = 5 * 60 * 1000"

definition saveToCache ::
  "int \<Rightarrow> string \<Rightarrow> 'u list \<Rightarrow> 'u localStorage \<Rightarrow> 'u localStorage" where
  "saveToCache now key d ls = ls(key \<mapsto> \<lparr>data = d, timestamp = now\<rparr>)"

definition getFromCache ::
  "int \<Rightarrow> string \<Rightarrow> 'u localStorage \<Rightarrow> 'u list option \<times> 'u localStorage" where
  "getFromCache now key ls =
     (case ls key of
        None \<Rightarrow> (None, ls)
      | Some cached \<Rightarrow>
          if now - timestamp cached > CACHE_EXPIRY
          then (None, ls(key := None))
          else (Some (data cached), ls))"

section \<open>Parallel fetch coordinator\<close>

text \<open>
  The outcome of one page request \<^verbatim>\<open>fetch(url).then(res => res.json())\<close>. It is
  fulfilled with the value of the body of the reply, whatever the status of the reply:
  \<^verbatim>\<open>fetchParallelData\<close> does not read \<^verbatim>\<open>res.ok\<close>, so the object that the server sends
  with the status 500 is a value like the array of a page. It is rejected when the network
  fails or when the body is not JSON. The reason of a rejection is only printed, so it is
  not kept.
\<close>

datatype 'a settled = is_Fulfilled: Fulfilled (val: 'a) | Rejected

text \<open>
  \<^verbatim>\<open>await Promise.all(ps)\<close>: the values in order if every promise is fulfilled, and an
  exception (\<open>None\<close>) as soon as one is rejected.
  \<^verbatim>\<open>await Promise.allSettled(ps)\<close>: always the list of the outcomes.
\<close>

fun Promise_all :: "'a settled list \<Rightarrow> 'a list option" where
  "Promise_all [] = Some []"
| "Promise_all (Rejected # ps) = None"
| "Promise_all (Fulfilled v # ps) =
     (case Promise_all ps of None \<Rightarrow> None | Some vs \<Rightarrow> Some (v # vs))"

definition Promise_allSettled :: "'a settled list \<Rightarrow> 'a settled list" where
  "Promise_allSettled ps = ps"

text \<open>
  \<^verbatim>\<open>self.findIndex(p)\<close>: the index of the first element that satisfies \<open>p\<close>, and
  \<open>-1\<close> when there is none.
\<close>

fun findIndex_from :: "('a \<Rightarrow> bool) \<Rightarrow> int \<Rightarrow> 'a list \<Rightarrow> int" where
  "findIndex_from p i [] = -1"
| "findIndex_from p i (x # xs) = (if p x then i else findIndex_from p (i + 1) xs)"

definition findIndex :: "('a \<Rightarrow> bool) \<Rightarrow> 'a list \<Rightarrow> int" where
  "findIndex p xs = findIndex_from p 0 xs"

text \<open>
  The merge of \<^verbatim>\<open>fetchParallelData\<close>:
  \<^verbatim>\<open>[...allUsers, ...successfulData].filter((user, index, self) =>
       index === self.findIndex(u => u.id === user.id))\<close>,
  on lists of user records.
\<close>

definition combinedUsers :: "user list \<Rightarrow> user list \<Rightarrow> user list" where
  "combinedUsers allUsers successfulData =
     (let self = allUsers @ successfulData
      in map fst (filter (\<lambda>(user, index).
           int index = findIndex (\<lambda>u. id' u = id' user) self)
           (zip self [0..<length self])))"

text \<open>
  Deduplication as the specification words it: the first occurrence of each \<^verbatim>\<open>id\<close> is
  kept, in order. \<open>seen\<close> holds the identifiers met so far.
\<close>

fun keepFirstById :: "int list \<Rightarrow> user list \<Rightarrow> user list" where
  "keepFirstById seen [] = []"
| "keepFirstById seen (u # us) =
     (if id' u \<in> set seen then keepFirstById seen us
      else u # keepFirstById (id' u # seen) us)"

definition dedupById :: "user list \<Rightarrow> user list" where
  "dedupById us = keepFirstById [] us"

text \<open>
  \<^verbatim>\<open>Array.prototype.flat\<close>: an element that is an array is replaced by its elements,
  any other element stays.
\<close>

definition flat :: "json list \<Rightarrow> json list" where
  "flat vs = concat (map (\<lambda>v. case v of JArr xs \<Rightarrow> xs | _ \<Rightarrow> [v]) vs)"

text \<open>
  The merge on the values that the replies hold, which need not be user records.
  \<^verbatim>\<open>self.findIndex(u => u.id === user.id)\<close> for the element \<open>user\<close> at the position
  \<open>index\<close>: \<open>j\<close> is the position of \<open>u\<close>. Reading \<^verbatim>\<open>u.id\<close>, then \<^verbatim>\<open>user.id\<close>,
  throws on \<^verbatim>\<open>null\<close>. At the position \<open>index\<close> the element \<open>u\<close> is \<open>user\<close>
  itself, so the two sides are the same value and the test succeeds.
\<close>

fun findIndex_id :: "json \<Rightarrow> nat \<Rightarrow> nat \<Rightarrow> json list \<Rightarrow> error + int" where
  "findIndex_id user index j [] = Inr (- 1)"
| "findIndex_id user index j (u # rest) =
     (case get_prop u ''id'' of
        Inl e \<Rightarrow> Inl e
      | Inr a \<Rightarrow>
          (case get_prop user ''id'' of
             Inl e \<Rightarrow> Inl e
           | Inr b \<Rightarrow>
               if j = index \<or> strict_eq a b then Inr (int j)
               else findIndex_id user index (j + 1) rest))"

text \<open>
  \<^verbatim>\<open>filter((user, index, self) => index === self.findIndex(...))\<close> over the elements
  with their positions; an exception of the callback leaves the filter.
\<close>

fun filter_first :: "json list \<Rightarrow> (json \<times> nat) list \<Rightarrow> error + json list" where
  "filter_first self [] = Inr []"
| "filter_first self ((user, index) # rest) =
     (case findIndex_id user index 0 self of
        Inl e \<Rightarrow> Inl e
      | Inr k \<Rightarrow>
          (case filter_first self rest of
             Inl e \<Rightarrow> Inl e
           | Inr kept \<Rightarrow> Inr (if int index = k then user # kept else kept)))"

definition combinedUsers_json :: "json list \<Rightarrow> json list \<Rightarrow> error + json list" where
  "combinedUsers_json allUsers successfulData =
     (let self = allUsers @ successfulData
      in filter_first self (zip self [0..<length self]))"

text \<open>
  What \<^verbatim>\<open>console.error\<close> prints: the message, and for a line of the stream the line and
  the exception caught.
\<close>

datatype console_entry =
    ErrorFetchingData
  | StreamingFailed
  | ErrorParsingChunk string error

text \<open>
  What one call of \<^verbatim>\<open>fetchParallelData\<close> leaves behind: the component's state, the
  storage, the pages requested from the server in the order of the \<^verbatim>\<open>fetch\<close> calls, and
  what \<^verbatim>\<open>console.error\<close> printed.
\<close>

record fetched =
  state :: "json app"
  storage :: "json localStorage"
  requested :: "nat list"
  logged :: "console_entry list"

text \<open>
  \<^verbatim>\<open>fetchParallelData\<close>. \<open>now\<^sub>1\<close> and \<open>now\<^sub>2\<close> are the readings of \<^verbatim>\<open>Date.now()\<close> in
  \<^verbatim>\<open>getFromCache\<close> and in \<^verbatim>\<open>saveToCache\<close>. The server answers the same URL anew at each
  request: \<open>respAll page\<close> is the outcome of the request of \<open>page\<close> made for
  \<^verbatim>\<open>Promise.all\<close>, and \<open>respSettled page\<close> of the one made for \<^verbatim>\<open>Promise.allSettled\<close>.
  The requests of the second group are issued only after the \<^verbatim>\<open>await\<close> of the first
  group has returned; when that \<^verbatim>\<open>await\<close> throws, or when the merge throws, control goes
  to \<^verbatim>\<open>catch\<close> and then \<^verbatim>\<open>finally\<close>.
\<close>

definition fetchParallelData ::
  "int \<Rightarrow> int \<Rightarrow> nat \<Rightarrow> (nat \<Rightarrow> json settled) \<Rightarrow> (nat \<Rightarrow> json settled) \<Rightarrow>
   json app \<Rightarrow> json localStorage \<Rightarrow> fetched" where
  "fetchParallelData now\<^sub>1 now\<^sub>2 pagesToFetch respAll respSettled st ls =
     (let st = st\<lparr>loading := True\<rparr>;
          (cachedData, ls) = getFromCache now\<^sub>1 ''users'' ls
      in case cachedData of
           Some d \<Rightarrow>
             \<lparr>state = st\<lparr>users := d, dataSource := Some ''cache'', loading := False\<rparr>,
              storage = ls, requested = [], logged = []\<rparr>
         | None \<Rightarrow>
             (let pages = map (\<lambda>i. i + 1) [0..<pagesToFetch]
              in case Promise_all (map respAll pages) of
                   None \<Rightarrow>
                     \<lparr>state = st\<lparr>loading := False\<rparr>, storage = ls,
                      requested = pages, logged = [ErrorFetchingData]\<rparr>
                 | Some allResponses \<Rightarrow>
                     (let settledResponses = Promise_allSettled (map respSettled pages);
                          allUsers = flat allResponses;
                          successfulData =
                            flat (map val (filter is_Fulfilled settledResponses))
                      in case combinedUsers_json allUsers successfulData of
                           Inl e \<Rightarrow>
                             \<lparr>state = st\<lparr>loading := False\<rparr>, storage = ls,
                              requested = pages @ pages, logged = [ErrorFetchingData]\<rparr>
                         | Inr combined \<Rightarrow>
                             \<lparr>state = st\<lparr>users := combined, dataSource := Some ''server'',
                                          loading := False\<rparr>,
                              storage = saveToCache now\<^sub>2 ''users'' combined ls,
                              requested = pages @ pages, logged = []\<rparr>)))"

text \<open>\<^verbatim>\<open>refreshData\<close>: the entry is removed, then the data are fetched.\<close>

definition refreshData ::
  "int \<Rightarrow> int \<Rightarrow> nat \<Rightarrow> (nat \<Rightarrow> json settled) \<Rightarrow> (nat \<Rightarrow> json settled) \<Rightarrow>
   json app \<Rightarrow> json localStorage \<Rightarrow> fetched" where
  "refreshData now\<^sub>1 now\<^sub>2 pagesToFetch respAll respSettled st ls =
     fetchParallelData now\<^sub>1 now\<^sub>2 pagesToFetch respAll respSettled st (ls(''users'' := None))"

section \<open>Streaming ingestor\<close>

text \<open>
  Text is the sequence of its UTF-8 bytes, and a chunk is the text that
  \<^verbatim>\<open>decoder.decode(value, { stream: true })\<close> returns for the bytes read (an unfinished
  character waits for the next chunk). The newline is one byte that is part of no other
  character. \<^verbatim>\<open>buffer.split('\n')\<close> cuts the text at each newline; it never returns an
  empty array, so the first case of the inner \<open>case\<close> is never taken.
\<close>

definition newline :: char where
  "newline = CHR 0x0A"

fun split_nl :: "string \<Rightarrow> string list" where
  "split_nl [] = [[]]"
| "split_nl (c # cs) =
     (if c = newline then [] # split_nl cs
      else (case split_nl cs of
              [] \<Rightarrow> [[c]]
            | l # ls \<Rightarrow> (c # l) # ls))"

text \<open>
  \<^verbatim>\<open>String.prototype.trim\<close> removes the white space and the line terminators of
  ECMAScript at both ends. Those of one byte are U+0009 to U+000D and U+0020; of two
  bytes, U+00A0; of three bytes, U+1680, U+2000 to U+200A, U+2028, U+2029, U+202F,
  U+205F, U+3000 and U+FEFF.
\<close>

definition is_space :: "char \<Rightarrow> bool" where
  "is_space c = (c = CHR 0x09 \<or> c = CHR 0x0A \<or> c = CHR 0x0B \<or> c = CHR 0x0C
                 \<or> c = CHR 0x0D \<or> c = CHR 0x20)"

definition is_space2 :: "char \<Rightarrow> char \<Rightarrow> bool" where
  "is_space2 a b = (a = CHR 0xC2 \<and> b = CHR 0xA0)"

definition is_space3 :: "char \<Rightarrow> char \<Rightarrow> char \<Rightarrow> bool" where
  "is_space3 a b c =
     ((a = CHR 0xE1 \<and> b = CHR 0x9A \<and> c = CHR 0x80)
      \<or> (a = CHR 0xE2 \<and> b = CHR 0x80
          \<and> c \<in> set [CHR 0x80, CHR 0x81, CHR 0x82, CHR 0x83, CHR 0x84, CHR 0x85, CHR 0x86,
                      CHR 0x87, CHR 0x88, CHR 0x89, CHR 0x8A, CHR 0xA8, CHR 0xA9, CHR 0xAF])
      \<or> (a = CHR 0xE2 \<and> b = CHR 0x81 \<and> c = CHR 0x9F)
      \<or> (a = CHR 0xE3 \<and> b = CHR 0x80 \<and> c = CHR 0x80)
      \<or> (a = CHR 0xEF \<and> b = CHR 0xBB \<and> c = CHR 0xBF))"

text \<open>The white space at the start of a text is removed.\<close>

fun trimStart :: "string \<Rightarrow> string" where
  "trimStart (a # b # c # s) =
     (if is_space a then trimStart (b # c # s)
      else if is_space2 a b then trimStart (c # s)
      else if is_space3 a b c then trimStart s
      else a # b # c # s)"
| "trimStart [a, b] =
     (if is_space a then trimStart [b]
      else if is_space2 a b then []
      else [a, b])"
| "trimStart [a] = (if is_space a then [] else [a])"
| "trimStart [] = []"

text \<open>The same at the end of a text, on the text read backwards.\<close>

fun trimEnd_rev :: "string \<Rightarrow> string" where
  "trimEnd_rev (c # b # a # s) =
     (if is_space c then trimEnd_rev (b # a # s)
      else if is_space2 b c then trimEnd_rev (a # s)
      else if is_space3 a b c then trimEnd_rev s
      else c # b # a # s)"
| "trimEnd_rev [b, a] =
     (if is_space b then trimEnd_rev [a]
      else if is_space2 a b then []
      else [b, a])"
| "trimEnd_rev [a] = (if is_space a then [] else [a])"
| "trimEnd_rev [] = []"

definition js_trim :: "string \<Rightarrow> string" where
  "js_trim s = rev (trimEnd_rev (rev (trimStart s)))"

text \<open>
  The locals of \<^verbatim>\<open>streamData\<close> and the state it writes: \<^verbatim>\<open>streamUsers\<close>,
  \<^verbatim>\<open>receivedCount\<close>, \<^verbatim>\<open>buffer\<close>, and what \<^verbatim>\<open>console.error\<close> printed.
\<close>

record ingest =
  streamUsers :: "json list"
  receivedCount :: nat
  buffer :: string
  console :: "console_entry list"

text \<open>
  The statements of the \<^verbatim>\<open>try\<close> block after the test of the empty line, up to the
  \<^verbatim>\<open>throw\<close>: the record, or the exception that \<^verbatim>\<open>catch\<close> receives.
\<close>

definition parse_user :: "(string \<Rightarrow> json option) \<Rightarrow> string \<Rightarrow> error + json" where
  "parse_user JSON_parse line =
     (case JSON_parse line of
        None \<Rightarrow> Inl SyntaxError
      | Some user \<Rightarrow>
          (case get_prop user ''id'' of
             Inl e \<Rightarrow> Inl e
           | Inr i \<Rightarrow>
               if \<not> truthy i then Inl InvalidUserData
               else (case get_prop user ''name'' of
                       Inl e \<Rightarrow> Inl e
                     | Inr n \<Rightarrow> if \<not> truthy n then Inl InvalidUserData else Inr user)))"

text \<open>The updater given to \<^verbatim>\<open>setStreamUsers\<close>.\<close>

definition add_user :: "json \<Rightarrow> json list \<Rightarrow> json list" where
  "add_user user prev =
     (let exists = list_ex (\<lambda>u. strict_eq (id_of u) (id_of user)) prev
      in if exists then prev else prev @ [user])"

text \<open>The body of the \<^verbatim>\<open>for\<close> loop after the test of the limit.\<close>

definition line_body :: "(string \<Rightarrow> json option) \<Rightarrow> string \<Rightarrow> ingest \<Rightarrow> ingest" where
  "line_body JSON_parse line st =
     (if js_trim line = [] then st
      else (case parse_user JSON_parse line of
              Inr user \<Rightarrow>
                st\<lparr>streamUsers := add_user user (streamUsers st),
                   receivedCount := receivedCount st + 1\<rparr>
            | Inl e \<Rightarrow> st\<lparr>console := console st @ [ErrorParsingChunk line e]\<rparr>))"

text \<open>\<^verbatim>\<open>for (const line of ...)\<close>, with its \<^verbatim>\<open>break\<close>.\<close>

fun for_lines :: "(string \<Rightarrow> json option) \<Rightarrow> nat \<Rightarrow> string list \<Rightarrow> ingest \<Rightarrow> ingest" where
  "for_lines JSON_parse streamLimit [] st = st"
| "for_lines JSON_parse streamLimit (line # rest) st =
     (if receivedCount st \<ge> streamLimit then st
      else for_lines JSON_parse streamLimit rest (line_body JSON_parse line st))"

text \<open>The body of the \<^verbatim>\<open>while\<close> loop once \<^verbatim>\<open>reader.read()\<close> has returned a chunk.\<close>

definition on_chunk :: "(string \<Rightarrow> json option) \<Rightarrow> nat \<Rightarrow> string \<Rightarrow> ingest \<Rightarrow> ingest" where
  "on_chunk JSON_parse streamLimit chunk st =
     (let buf = buffer st @ chunk;
          lines = split_nl buf;
          st = for_lines JSON_parse streamLimit (butlast lines) (st\<lparr>buffer := buf\<rparr>)
      in st\<lparr>buffer := last lines\<rparr>)"

text \<open>
  The source of the response's body is any state machine: \<open>read r\<close> is what
  \<^verbatim>\<open>await reader.read()\<close> gives in the state \<open>r\<close> of the source, which may go on for
  ever. \<open>Failed\<close> is a rejected read.
\<close>

datatype 'r read_result = Chunk string 'r | Done | Failed

text \<open>
  The \<^verbatim>\<open>while\<close> loop. It returns whether an exception left it, the state of the source
  and the state of the ingestion; its value is \<open>None\<close> when it runs for ever.
\<close>

partial_function (option) read_loop ::
  "(string \<Rightarrow> json option) \<Rightarrow> nat \<Rightarrow> ('r \<Rightarrow> 'r read_result) \<Rightarrow> 'r \<Rightarrow> ingest \<Rightarrow>
   (bool \<times> 'r \<times> ingest) option" where
  "read_loop JSON_parse streamLimit read r st =
     (if receivedCount st < streamLimit then
        (case read r of
           Done \<Rightarrow> Some (False, r, st)
         | Failed \<Rightarrow> Some (True, r, st)
         | Chunk chunk r' \<Rightarrow>
             read_loop JSON_parse streamLimit read r'
               (on_chunk JSON_parse streamLimit chunk st))
      else Some (False, r, st))"

text \<open>
  The body of a response is a stream over a source; \<^verbatim>\<open>getReader()\<close> locks it, and
  throws on a stream that is locked already. \<^verbatim>\<open>streamData\<close> calls neither
  \<^verbatim>\<open>reader.cancel()\<close> nor \<^verbatim>\<open>reader.releaseLock()\<close>.
\<close>

record 'r stream =
  source :: 'r
  locked :: bool

datatype 'r response = Response (ok: bool) (status: nat) (body: "'r stream option")

text \<open>
  \<^verbatim>\<open>streamData\<close>. \<open>resp\<close> is what \<^verbatim>\<open>await fetch(...)\<close> gives, \<open>None\<close> for a rejection.
  The result is the state of the ingestion and the body of the response as the call leaves
  it.
\<close>

definition streamData ::
  "(string \<Rightarrow> json option) \<Rightarrow> nat \<Rightarrow> ('r \<Rightarrow> 'r read_result) \<Rightarrow> 'r response option \<Rightarrow>
   (ingest \<times> 'r stream option) option" where
  "streamData JSON_parse streamLimit read resp =
     (let st = \<lparr>streamUsers = [], receivedCount = 0, buffer = [], console = []\<rparr>;
          failed = (\<lambda>st. st\<lparr>console := console st @ [StreamingFailed]\<rparr>)
      in case resp of
           None \<Rightarrow> Some (failed st, None)
         | Some response \<Rightarrow>
             if \<not> ok response then Some (failed st, body response)
             else (case body response of
                     None \<Rightarrow> Some (failed st, None)
                   | Some b \<Rightarrow>
                       if locked b then Some (failed st, Some b)
                       else (case read_loop JSON_parse streamLimit read (source b) st of
                               None \<Rightarrow> None
                             | Some (threw, r, st) \<Rightarrow>
                                 Some (if threw then failed st else st,
                                       Some (b\<lparr>source := r, locked := True\<rparr>)))))"

text \<open>
  A finite or unfinished run of a source: the chunks of the first \<open>k\<close> reads and the
  state of the source after them, when each of these reads gives a chunk.
\<close>

fun read_n :: "('r \<Rightarrow> 'r read_result) \<Rightarrow> nat \<Rightarrow> 'r \<Rightarrow> (string list \<times> 'r) option" where
  "read_n read 0 r = Some ([], r)"
| "read_n read (Suc k) r =
     (case read r of
        Chunk chunk r' \<Rightarrow>
          (case read_n read k r' of
             None \<Rightarrow> None
           | Some (chunks, r'') \<Rightarrow> Some (chunk # chunks, r''))
      | Done \<Rightarrow> None
      | Failed \<Rightarrow> None)"

text \<open>The body of the \<^verbatim>\<open>while\<close> loop run on each chunk of a list in turn.\<close>

definition feed :: "(string \<Rightarrow> json option) \<Rightarrow> nat \<Rightarrow> string list \<Rightarrow> ingest \<Rightarrow> ingest" where
  "feed JSON_parse streamLimit chunks st =
     foldl (\<lambda>st chunk. on_chunk JSON_parse streamLimit chunk st) st chunks"

text \<open>A source that holds a list of chunks and ends after them.\<close>

definition list_source :: "string list \<Rightarrow> string list read_result" where
  "list_source chunks = (case chunks of [] \<Rightarrow> Done | chunk # rest \<Rightarrow> Chunk chunk rest)"

text \<open>The complete lines of a text: every segment that a newline ends.\<close>

definition complete_lines :: "string \<Rightarrow> string list" where
  "complete_lines t = butlast (split_nl t)"

section \<open>Example data\<close>

definition u1 :: user where
  "u1 = \<lparr>id' = 1, name = ''Cecep'', age = 40, email = ''c@example.com''\<rparr>"

definition u2 :: user where
  "u2 = \<lparr>id' = 2, name = ''Budi'', age = 30, email = ''b@example.com''\<rparr>"

definition u3 :: user where
  "u3 = \<lparr>id' = 3, name = ''Ani'', age = 35, email = ''a@example.com''\<rparr>"

definition u4 :: user where
  "u4 = \<lparr>id' = 4, name = ''Dedi'', age = 35, email = ''d@example.com''\<rparr>"

text \<open>A comparison of strings to run the examples with: by length.\<close>

definition byLength :: "string \<Rightarrow> string \<Rightarrow> int" where
  "byLength a b = int (length a) - int (length b)"

text \<open>A second record with the identifier of \<open>u1\<close>.\<close>

definition u1' :: user where
  "u1' = \<lparr>id' = 1, name = ''Copy'', age = 22, email = ''copy@example.com''\<rparr>"

text \<open>
  The network when the second page is rejected, when both pages arrive, and when the
  second page is answered with the status 500 and the object that the server sends with
  it; the component before the first load.
\<close>

definition respSecondFails :: "nat \<Rightarrow> json settled" where
  "respSecondFails page =
     (if page = 1 then Fulfilled (JArr [to_json u1, to_json u2]) else Rejected)"

definition respBoth :: "nat \<Rightarrow> json settled" where
  "respBoth page =
     (if page = 1 then Fulfilled (JArr [to_json u1, to_json u2])
      else Fulfilled (JArr [to_json u3, to_json u4]))"

definition error_body :: json where
  "error_body = JObj [(''error'', JStr ''Internal server error'')]"

definition respSecondNotOk :: "nat \<Rightarrow> json settled" where
  "respSecondNotOk page =
     (if page = 1 then Fulfilled (JArr [to_json u1, to_json u2]) else Fulfilled error_body)"

definition app0 :: "json app" where
  "app0 = \<lparr>users = [], loading = False, dataSource = None\<rparr>"

text \<open>The state of the ingestion when \<^verbatim>\<open>streamData\<close> enters its loop.\<close>

definition ingest0 :: ingest where
  "ingest0 = \<lparr>streamUsers = [], receivedCount = 0, buffer = [], console = []\<rparr>"

text \<open>A successful response whose body is the unread stream over a source.\<close>

definition fresh_response :: "'r \<Rightarrow> 'r response option" where
  "fresh_response r = Some (Response True 200 (Some \<lparr>source = r, locked = False\<rparr>))"

text \<open>A text made of lines, each ended by a newline.\<close>

definition unlines :: "string list \<Rightarrow> string" where
  "unlines ls = concat (map (\<lambda>l. l @ [newline]) ls)"

text \<open>
  Lines of a stream and what \<^verbatim>\<open>JSON.parse\<close> returns for them. \<open>JSON_parse_sample\<close>
  is \<^verbatim>\<open>JSON.parse\<close> on these lines, and a \<^verbatim>\<open>SyntaxError\<close> on every other string, of
  which the examples use \<open>line_bad\<close> only.
\<close>

definition line_a :: string where
  \<open>line_a = ''{"id":1,"name":"A"}''\<close>

definition line_a_again :: string where
  \<open>line_a_again = ''{"id":1,"name":"A again"}''\<close>

definition line_b :: string where
  \<open>line_b = ''{"id":2,"name":"B"}''\<close>

definition line_zero :: string where
  \<open>line_zero = ''{"id":0,"name":"Z"}''\<close>

definition line_unnamed :: string where
  \<open>line_unnamed = ''{"id":3,"name":""}''\<close>

definition line_bad :: string where
  \<open>line_bad = ''{bad json''\<close>

definition user_a :: json where
  "user_a = JObj [(''id'', JNum 1), (''name'', JStr ''A'')]"

definition user_a_again :: json where
  "user_a_again = JObj [(''id'', JNum 1), (''name'', JStr ''A again'')]"

definition user_b :: json where
  "user_b = JObj [(''id'', JNum 2), (''name'', JStr ''B'')]"

definition user_zero :: json where
  "user_zero = JObj [(''id'', JNum 0), (''name'', JStr ''Z'')]"

definition user_unnamed :: json where
  "user_unnamed = JObj [(''id'', JNum 3), (''name'', JStr [])]"

definition JSON_parse_sample :: "string \<Rightarrow> json option" where
  "JSON_parse_sample s =
     (if s = line_a then Some user_a
      else if s = line_a_again then Some user_a_again
      else if s = line_b then Some user_b
      else if s = line_zero then Some user_zero
      else if s = line_unnamed then Some user_unnamed
      else None)"

text \<open>
  Two chunks that cut the text of \<open>line_a\<close>, a newline and \<open>line_b\<close> inside the
  first line.
\<close>

definition chunk_1 :: string where
  \<open>chunk_1 = ''{"id":1,''\<close>

definition chunk_2 :: string where
  \<open>chunk_2 = ''"name":"A"}'' @ [newline] @ ''{"id":2,"name":"B"}''\<close>

section \<open>Properties of the processing dispatcher\<close>

lemma mset_insert_cmp: "mset (insert_cmp cmp x ys) = add_mset x (mset ys)"
  by (induction ys) auto

lemma mset_js_sort: "mset (js_sort cmp xs) = mset xs"
  by (induction xs) (auto simp: js_sort_def mset_insert_cmp)

text \<open>
  With the comparator of the key \<^verbatim>\<open>age\<close> the model of \<^verbatim>\<open>sort\<close> is the stable sort by
  age of the library.
\<close>

lemma insert_cmp_age: "insert_cmp (\<lambda>a b. age a - age b) x ys = insort_key age x ys"
  by (induction ys) auto

lemma js_sort_age: "js_sort (\<lambda>a b. age a - age b) xs = sort_key age xs"
  by (induction xs) (simp_all add: js_sort_def insert_cmp_age)

text \<open>
  C1. The offloaded path and the inline path give the same result: for every state of
  the component, every threshold, every sort key and every string comparison,
  \<^verbatim>\<open>processWithWorker\<close> and \<^verbatim>\<open>processInMainThread\<close> leave the same state, with the
  same records in the same order in \<^verbatim>\<open>users\<close>; so \<^verbatim>\<open>handleProcessData\<close> gives the same
  \<^verbatim>\<open>users\<close> whatever the toggle says.
\<close>

theorem worker_equals_inline:
  "processWithWorker localeCompare minAge sortBy st
     = processInMainThread localeCompare minAge sortBy st
   \<and> users (handleProcessData True localeCompare minAge sortBy st)
     = users (handleProcessData False localeCompare minAge sortBy st)"
  by (simp add: processWithWorker_def processInMainThread_def handleProcessData_def
      worker_onmessage_def worker_filteredUsers_def main_filteredUsers_def js_sort_def)

theorem worker_equals_inline_witness:
  "users (processWithWorker byLength 30 ''age''
            \<lparr>users = [u1, u2, u3, u4], loading = False, dataSource = None\<rparr>)
     = [u3, u4, u1]
   \<and> users (processInMainThread byLength 30 ''age''
            \<lparr>users = [u1, u2, u3, u4], loading = False, dataSource = None\<rparr>)
     = [u3, u4, u1]"
  using worker_equals_inline [of byLength 30 "''age''"
      "\<lparr>users = [u1, u2, u3, u4], loading = False, dataSource = None\<rparr>"]
  by (simp add: processInMainThread_def main_filteredUsers_def js_sort_def
      u1_def u2_def u3_def u4_def)

text \<open>
  C7. The filtering step of both paths keeps exactly the records whose age is strictly
  greater than the threshold, in their order: it is the sublist of these records, a
  record whose age equals the threshold is in neither result, and what each path returns
  holds these records and no others, each as often as the input does.
\<close>

theorem filter_keeps_strictly_older:
  "main_filteredUsers R T = [r \<leftarrow> R. T < age r]
   \<and> worker_filteredUsers R T = [r \<leftarrow> R. T < age r]
   \<and> set (main_filteredUsers R T) = {r \<in> set R. T < age r}
   \<and> mset (main_filteredUsers R T) = filter_mset (\<lambda>r. T < age r) (mset R)
   \<and> subseq (main_filteredUsers R T) R
   \<and> (\<forall>r. age r = T \<longrightarrow>
         r \<notin> set (main_filteredUsers R T) \<and> r \<notin> set (worker_filteredUsers R T))
   \<and> mset (users (processInMainThread localeCompare T sortBy st))
       = filter_mset (\<lambda>r. T < age r) (mset (users st))
   \<and> mset (worker_onmessage localeCompare R T sortBy)
       = filter_mset (\<lambda>r. T < age r) (mset R)"
  by (auto simp: main_filteredUsers_def worker_filteredUsers_def processInMainThread_def
      worker_onmessage_def mset_js_sort)

theorem filter_keeps_strictly_older_witness:
  "age u2 = 30 \<and> main_filteredUsers [u1, u2, u3, u4] 30 = [u1, u3, u4]
   \<and> u2 \<notin> set (worker_filteredUsers [u1, u2, u3, u4] 30)"
  using filter_keeps_strictly_older [of "[u1, u2, u3, u4]" 30]
  by (simp add: u1_def u2_def u3_def u4_def)

section \<open>Properties of the cache\<close>

text \<open>
  C4, at the boundary. An entry stored at time 0 and read at time 300000 is exactly five
  minutes old, so its age is not less than the time to live; \<^verbatim>\<open>getFromCache\<close> still
  returns the payload and leaves the entry in the storage.
\<close>

theorem cache_boundary_counterexample:
  "\<not> ((300000::int) - 0 < CACHE_EXPIRY)
   \<and> fst (getFromCache 300000 ''users'' (saveToCache 0 ''users'' [u1] Map.empty))
       = Some [u1]
   \<and> snd (getFromCache 300000 ''users'' (saveToCache 0 ''users'' [u1] Map.empty)) ''users''
       \<noteq> None"
  by (simp add: getFromCache_def saveToCache_def CACHE_EXPIRY_def)

text \<open>
  C4, as the code has it. The time to live is five minutes. After \<^verbatim>\<open>saveToCache\<close> at
  time \<open>storedAt\<close>, \<^verbatim>\<open>getFromCache\<close> at time \<open>now\<close> returns the payload, and leaves the
  storage as it is, exactly when \<open>now - storedAt\<close> is at most the time to live; once
  \<open>now - storedAt\<close> is greater, it returns a miss and removes the entry. A read at the
  time of the write returns the payload.
\<close>

theorem cache_round_trip:
  "CACHE_EXPIRY = 300000
   \<and> getFromCache now k (saveToCache storedAt k v ls)
       = (if now - storedAt \<le> CACHE_EXPIRY then (Some v, saveToCache storedAt k v ls)
          else (None, ls(k := None)))
   \<and> fst (getFromCache storedAt k (saveToCache storedAt k v ls)) = Some v"
  by (simp add: getFromCache_def saveToCache_def CACHE_EXPIRY_def)

theorem cache_round_trip_witness:
  "getFromCache 300000 ''users'' (saveToCache 0 ''users'' [u1] Map.empty)
     = (Some [u1], saveToCache 0 ''users'' [u1] Map.empty)
   \<and> getFromCache 300001 ''users'' (saveToCache 0 ''users'' [u1] Map.empty)
     = (None, Map.empty)"
  using cache_round_trip [of 300000 "''users''" 0 "[u1]" Map.empty]
    cache_round_trip [of 300001 "''users''" 0 "[u1]" Map.empty]
  by simp

section \<open>Properties of the merge\<close>

text \<open>
  \<^verbatim>\<open>findIndex\<close> returns the position of an element exactly when no earlier element
  has its identifier.
\<close>

lemma findIndex_from_first:
  "\<forall>y\<in>set pre. \<not> p y \<Longrightarrow> p x \<Longrightarrow> findIndex_from p i (pre @ x # rest) = i + int (length pre)"
  by (induction pre arbitrary: i) auto

lemma findIndex_from_earlier:
  "\<exists>y\<in>set pre. p y \<Longrightarrow> findIndex_from p i (pre @ rest) < i + int (length pre)"
proof (induction pre arbitrary: i)
  case Nil
  then show ?case by simp
next
  case (Cons a pre)
  show ?case
  proof (cases "p a")
    case True
    then show ?thesis by simp
  next
    case False
    with Cons.prems have "\<exists>y\<in>set pre. p y" by auto
    from Cons.IH [OF this, of "i + 1"] False show ?thesis by simp
  qed
qed

lemma findIndex_own_position:
  "(int (length pre) = findIndex (\<lambda>u. id' u = id' x) (pre @ x # rest))
     = (id' x \<notin> set (map id' pre))"
proof (cases "\<exists>y\<in>set pre. id' y = id' x")
  case True
  from findIndex_from_earlier [of pre "\<lambda>u. id' u = id' x" 0 "x # rest", OF True]
  have "findIndex (\<lambda>u. id' u = id' x) (pre @ x # rest) < int (length pre)"
    by (simp add: findIndex_def)
  moreover from True obtain y where "y \<in> set pre" "id' y = id' x" by blast
  then have "id' x \<in> set (map id' pre)" by (metis image_eqI set_map)
  ultimately show ?thesis by simp
next
  case False
  then have "\<forall>y\<in>set pre. \<not> id' y = id' x" by blast
  from findIndex_from_first [of pre "\<lambda>u. id' u = id' x" x 0 rest, OF this]
  have "findIndex (\<lambda>u. id' u = id' x) (pre @ x # rest) = int (length pre)"
    by (simp add: findIndex_def)
  moreover from False have "id' x \<notin> set (map id' pre)" by auto
  ultimately show ?thesis by simp
qed

lemma keepFirstById_seen_cong:
  "set seen = set seen' \<Longrightarrow> keepFirstById seen us = keepFirstById seen' us"
proof (induction us arbitrary: seen seen')
  case Nil
  then show ?case by simp
next
  case (Cons u us)
  from Cons.prems have "set (id' u # seen) = set (id' u # seen')" by simp
  from Cons.IH [OF this] Cons.IH [OF Cons.prems] Cons.prems show ?case by simp
qed


lemma filter_own_position:
  "map fst (filter (\<lambda>(user, index). int index = findIndex (\<lambda>u. id' u = id' user) (pre @ xs))
      (zip xs [length pre..<length pre + length xs]))
   = keepFirstById (map id' pre) xs"
proof (induction xs arbitrary: pre)
  case Nil
  then show ?case by simp
next
  case (Cons x xs)
  have upt: "[length pre..<length pre + length (x # xs)]
      = length pre # [length (pre @ [x])..<length (pre @ [x]) + length xs]"
    by (subst upt_rec) simp
  have IH: "map fst (filter (\<lambda>(user, index). int index = findIndex (\<lambda>u. id' u = id' user) (pre @ x # xs))
      (zip xs [length (pre @ [x])..<length (pre @ [x]) + length xs]))
   = keepFirstById (map id' (pre @ [x])) xs"
    using Cons.IH [of "pre @ [x]"] by simp
  have seen: "keepFirstById (map id' (pre @ [x])) xs = keepFirstById (id' x # map id' pre) xs"
    by (rule keepFirstById_seen_cong) auto
  have seen': "id' x \<in> set (map id' pre) \<Longrightarrow>
      keepFirstById (map id' (pre @ [x])) xs = keepFirstById (map id' pre) xs"
    by (rule keepFirstById_seen_cong) auto
  show ?case
    unfolding upt
    using IH seen seen' findIndex_own_position [of pre x xs]
    by (simp del: upt_Suc map_append)
qed

lemma combinedUsers_dedupById:
  "combinedUsers allUsers successfulData = dedupById (allUsers @ successfulData)"
  using filter_own_position [of "[]" "allUsers @ successfulData"]
  by (simp add: combinedUsers_def dedupById_def Let_def)

lemma keepFirstById_all_seen:
  "set (map id' us) \<subseteq> set seen \<Longrightarrow> keepFirstById seen us = []"
  by (induction us arbitrary: seen) auto

lemma keepFirstById_append:
  "keepFirstById seen (a @ b)
     = keepFirstById seen a @ keepFirstById (map id' a @ seen) b"
proof (induction a arbitrary: seen)
  case Nil
  then show ?case by simp
next
  case (Cons u a)
  have 1: "keepFirstById (map id' a @ id' u # seen) b = keepFirstById (id' u # map id' a @ seen) b"
    by (rule keepFirstById_seen_cong) auto
  have 2: "id' u \<in> set seen \<Longrightarrow>
     keepFirstById (map id' a @ seen) b = keepFirstById (id' u # map id' a @ seen) b"
    by (rule keepFirstById_seen_cong) auto
  from Cons.IH [of seen] Cons.IH [of "id' u # seen"] 1 2 show ?case by simp
qed

lemma keepFirstById_distinct_ids:
  "distinct (map id' us) \<Longrightarrow> set (map id' us) \<inter> set seen = {} \<Longrightarrow> keepFirstById seen us = us"
  by (induction us arbitrary: seen) auto

lemma keepFirstById_ids:
  "id' ` set (keepFirstById seen us) = id' ` set us - set seen"
  by (induction us arbitrary: seen) auto

lemma keepFirstById_distinct:
  "distinct (map id' (keepFirstById seen us))"
  by (induction us arbitrary: seen) (auto simp: keepFirstById_ids)

lemma keepFirstById_subseq: "subseq (keepFirstById seen us) us"
  by (induction us arbitrary: seen) auto

lemma dedupById_twice: "dedupById (S @ S) = dedupById S"
  by (simp add: dedupById_def keepFirstById_append keepFirstById_all_seen)


text \<open>
  C8, on a list that repeats an identifier. The two records of the list \<open>[u1, u1']\<close>
  have the identifier 1; the list merged with itself is \<open>[u1]\<close>, not the list.
\<close>

theorem merge_with_itself_counterexample:
  "combinedUsers [u1, u1'] [u1, u1'] = [u1] \<and> combinedUsers [u1, u1'] [u1, u1'] \<noteq> [u1, u1']"
  by (simp add: combinedUsers_def findIndex_def u1_def u1'_def)

text \<open>
  C8, as the code has it. The merge step is the concatenation of the records of the
  fail-fast run with the successful records of the partial-success run, of which the first
  occurrence of each identifier is kept, in order: the result is a sublist of the
  concatenation, no identifier occurs twice in it and every identifier of the
  concatenation occurs in it. A list merged with itself gives the list deduplicated, which
  is the list itself when no identifier occurs twice in it. Deduplicating twice is
  deduplicating once.
\<close>

theorem merge_keeps_first_by_id:
  "combinedUsers allUsers successfulData = dedupById (allUsers @ successfulData)
   \<and> combinedUsers S S = dedupById S
   \<and> (distinct (map id' S) \<longrightarrow> combinedUsers S S = S)
   \<and> dedupById (dedupById S) = dedupById S
   \<and> distinct (map id' (combinedUsers allUsers successfulData))
   \<and> subseq (combinedUsers allUsers successfulData) (allUsers @ successfulData)
   \<and> id' ` set (combinedUsers allUsers successfulData) = id' ` set (allUsers @ successfulData)"
proof -
  have a: "combinedUsers allUsers successfulData = dedupById (allUsers @ successfulData)"
    by (rule combinedUsers_dedupById)
  have b: "combinedUsers S S = dedupById S"
    by (simp add: combinedUsers_dedupById dedupById_twice)
  have c: "distinct (map id' S) \<longrightarrow> combinedUsers S S = S"
    by (simp add: b dedupById_def keepFirstById_distinct_ids)
  have d: "dedupById (dedupById S) = dedupById S"
    unfolding dedupById_def
    by (rule keepFirstById_distinct_ids) (simp_all add: keepFirstById_distinct)
  have e: "distinct (map id' (combinedUsers allUsers successfulData))"
    by (simp add: a dedupById_def keepFirstById_distinct)
  have f: "subseq (combinedUsers allUsers successfulData) (allUsers @ successfulData)"
    by (simp add: a dedupById_def keepFirstById_subseq)
  have g: "id' ` set (combinedUsers allUsers successfulData) = id' ` set (allUsers @ successfulData)"
    using keepFirstById_ids [of "[]" "allUsers @ successfulData"]
    by (simp add: a dedupById_def image_Un)
  from a b c d e f g show ?thesis by blast
qed

theorem merge_keeps_first_by_id_witness:
  "distinct (map id' [u1, u2, u3]) \<and> combinedUsers [u1, u2, u3] [u1, u2, u3] = [u1, u2, u3]
   \<and> combinedUsers [u1, u2] [u2, u3] = [u1, u2, u3]"
  using merge_keeps_first_by_id [of "[u1, u2]" "[u2, u3]" "[u1, u2, u3]"]
  by (simp add: dedupById_def u1_def u2_def u3_def)

section \<open>Properties of the parallel fetch coordinator\<close>

lemma Promise_all_None: "(Promise_all ps = None) = (Rejected \<in> set ps)"
proof (induction ps)
  case Nil
  then show ?case by simp
next
  case (Cons p ps)
  then show ?case by (cases p) (auto split: option.splits)
qed

lemma Promise_all_Some: "Promise_all ps = Some vs \<Longrightarrow> vs = map val ps"
proof (induction ps arbitrary: vs)
  case Nil
  then show ?case by simp
next
  case (Cons p ps)
  then show ?case by (cases p) (auto split: option.splits)
qed

lemma pages_upt: "map (\<lambda>i. i + 1) [0..<n] = [1..<n + 1]"
  by (induction n) auto

text \<open>
  On user records the merge on values is the merge on records: no record is \<^verbatim>\<open>null\<close>,
  and the identifiers are numbers.
\<close>

lemma findIndex_id_records:
  "\<forall>k < length us. j + k = i \<longrightarrow> id' (us ! k) = id' user \<Longrightarrow>
   findIndex_id (to_json user) i j (map to_json us)
     = Inr (findIndex_from (\<lambda>u. id' u = id' user) (int j) us)"
proof (induction us arbitrary: j)
  case Nil
  then show ?case by simp
next
  case (Cons u us)
  from Cons.prems have here: "j = i \<longrightarrow> id' u = id' user" by auto
  have rest: "\<forall>k < length us. (j + 1) + k = i \<longrightarrow> id' (us ! k) = id' user"
  proof (intro allI impI)
    fix k assume "k < length us" "(j + 1) + k = i"
    then have "Suc k < length (u # us)" "j + Suc k = i" by simp_all
    with Cons.prems have "id' ((u # us) ! Suc k) = id' user" by blast
    then show "id' (us ! k) = id' user" by simp
  qed
  from Cons.IH [OF rest] here show ?case
    by (auto simp: to_json_def add.commute)
qed

lemma filter_first_records:
  "\<forall>(x, n) \<in> set ps. n < length self \<and> self ! n = x \<Longrightarrow>
   filter_first (map to_json self) (map (\<lambda>(x, n). (to_json x, n)) ps)
     = Inr (map to_json (map fst (filter (\<lambda>(user, index).
         int index = findIndex (\<lambda>u. id' u = id' user) self) ps)))"
proof (induction ps)
  case Nil
  then show ?case by simp
next
  case (Cons p ps)
  obtain x n where p: "p = (x, n)" by (cases p)
  from Cons.prems p have n: "n < length self" "self ! n = x" by auto
  then have "\<forall>k < length self. 0 + k = n \<longrightarrow> id' (self ! k) = id' x" by simp
  from findIndex_id_records [OF this]
  have f: "findIndex_id (to_json x) n 0 (map to_json self)
      = Inr (findIndex (\<lambda>u. id' u = id' x) self)"
    by (simp add: findIndex_def)
  from Cons.prems have "\<forall>(x, n) \<in> set ps. n < length self \<and> self ! n = x" by simp
  from Cons.IH [OF this] f show ?case by (simp add: p)
qed

lemma combinedUsers_json_records:
  "combinedUsers_json (map to_json a) (map to_json b) = Inr (map to_json (combinedUsers a b))"
proof -
  let ?self = "a @ b"
  have ps: "\<forall>(x, n) \<in> set (zip ?self [0..<length ?self]). n < length ?self \<and> ?self ! n = x"
    by (auto simp: set_zip)
  have "zip (map to_json ?self) [0..<length (map to_json ?self)]
      = map (\<lambda>(x, n). (to_json x, n)) (zip ?self [0..<length ?self])"
    by (simp only: zip_map1 length_map)
  with filter_first_records [OF ps] show ?thesis
    by (simp add: combinedUsers_json_def combinedUsers_def Let_def del: upt_Suc)
qed


text \<open>
  \<^verbatim>\<open>fetchParallelData\<close> on a cache miss, when a request of the first group is rejected
  and when none is.
\<close>

lemma fetchParallelData_rejected:
  assumes miss: "fst (getFromCache now\<^sub>1 ''users'' ls) = None"
    and rej: "\<exists>page \<in> {1..n}. respAll page = Rejected"
  shows "fetchParallelData now\<^sub>1 now\<^sub>2 n respAll respSettled st ls
        = \<lparr>state = st\<lparr>loading := False\<rparr>, storage = snd (getFromCache now\<^sub>1 ''users'' ls),
           requested = [1..<n + 1], logged = [ErrorFetchingData]\<rparr>"
proof -
  define pages where "pages = [1..<n + 1]"
  have p: "map (\<lambda>i. i + 1) [0..<n] = pages"
    by (simp only: pages_def pages_upt)
  have "set pages = {1..n}" by (auto simp: pages_def)
  with rej obtain page where "page \<in> set pages" "respAll page = Rejected"
    by blast
  then have "Rejected \<in> set (map respAll pages)"
    by (metis image_eqI set_map)
  then have P: "Promise_all (map respAll pages) = None"
    by (simp only: Promise_all_None)
  from miss obtain ls' where g: "getFromCache now\<^sub>1 ''users'' ls = (None, ls')"
    by (cases "getFromCache now\<^sub>1 ''users'' ls") simp
  show ?thesis
    unfolding fetchParallelData_def p g pages_def [symmetric]
    by (simp add: P)
qed

lemma fetchParallelData_fulfilled:
  assumes miss: "fst (getFromCache now\<^sub>1 ''users'' ls) = None"
    and ful: "\<forall>page \<in> {1..n}. respAll page \<noteq> Rejected"
  shows "fetchParallelData now\<^sub>1 now\<^sub>2 n respAll respSettled st ls
        = (case combinedUsers_json (flat (map (\<lambda>page. val (respAll page)) [1..<n + 1]))
                  (flat (map val (filter is_Fulfilled (map respSettled [1..<n + 1])))) of
             Inl e \<Rightarrow>
               \<lparr>state = st\<lparr>loading := False\<rparr>, storage = snd (getFromCache now\<^sub>1 ''users'' ls),
                requested = [1..<n + 1] @ [1..<n + 1], logged = [ErrorFetchingData]\<rparr>
           | Inr combined \<Rightarrow>
               \<lparr>state = st\<lparr>users := combined, dataSource := Some ''server'', loading := False\<rparr>,
                storage = saveToCache now\<^sub>2 ''users'' combined
                  (snd (getFromCache now\<^sub>1 ''users'' ls)),
                requested = [1..<n + 1] @ [1..<n + 1], logged = []\<rparr>)"
proof -
  define pages where "pages = [1..<n + 1]"
  have p: "map (\<lambda>i. i + 1) [0..<n] = pages"
    by (simp only: pages_def pages_upt)
  have "set pages = {1..n}" by (auto simp: pages_def)
  with ful have "Rejected \<notin> set (map respAll pages)" by auto
  then have "Promise_all (map respAll pages) \<noteq> None"
    by (simp only: Promise_all_None) simp
  then obtain vs where vs: "Promise_all (map respAll pages) = Some vs" by blast
  from Promise_all_Some [OF vs] have v: "vs = map (\<lambda>page. val (respAll page)) pages"
    by simp
  from miss obtain ls' where g: "getFromCache now\<^sub>1 ''users'' ls = (None, ls')"
    by (cases "getFromCache now\<^sub>1 ''users'' ls") simp
  show ?thesis
    unfolding fetchParallelData_def p g pages_def [symmetric]
    by (simp add: vs v Promise_allSettled_def Let_def split: sum.splits)
qed

text \<open>
  A reply with the status 500 and a JSON body is fulfilled, not rejected: with the second
  page answered so in both groups, \<^verbatim>\<open>Promise.all\<close> does not throw, both groups of
  requests are made, and the body is merged into \<^verbatim>\<open>users\<close> and stored like a record.
\<close>

lemma non_ok_reply_is_merged:
  "Promise_all (map respSecondNotOk [1, 2]) = Some [JArr [to_json u1, to_json u2], error_body]
   \<and> fetchParallelData 0 0 2 respSecondNotOk respSecondNotOk app0 Map.empty
       = \<lparr>state = \<lparr>users = [to_json u1, to_json u2, error_body], loading = False,
                   dataSource = Some ''server''\<rparr>,
          storage = saveToCache 0 ''users'' [to_json u1, to_json u2, error_body] Map.empty,
          requested = [1, 2, 1, 2], logged = []\<rparr>"
  by (simp add: fetchParallelData_def getFromCache_def respSecondNotOk_def app0_def upt_rec
      Promise_allSettled_def flat_def combinedUsers_json_def error_body_def to_json_def
      u1_def u2_def id_of_def)

text \<open>An element \<^verbatim>\<open>null\<close> in a reply makes the merge throw.\<close>

lemma null_element_throws: "combinedUsers_json [JNull] [] = Inl TypeError"
  by (simp add: combinedUsers_json_def)

text \<open>
  C3, on the code. The cache is empty and the second of two pages is rejected, in both
  groups of requests. \<^verbatim>\<open>Promise.all\<close> throws; \<^verbatim>\<open>fetchParallelData\<close> has then requested
  the two pages once, prints the error and leaves \<^verbatim>\<open>users\<close> empty: the requests of the
  partial-success group are never made, and the records of the page that succeeded are
  not in the result.
\<close>

theorem partial_phase_not_run_counterexample:
  "Promise_all (map respSecondFails [1, 2]) = None
   \<and> requested (fetchParallelData 0 0 2 respSecondFails respSecondFails app0 Map.empty) = [1, 2]
   \<and> logged (fetchParallelData 0 0 2 respSecondFails respSecondFails app0 Map.empty)
       = [ErrorFetchingData]
   \<and> users (state (fetchParallelData 0 0 2 respSecondFails respSecondFails app0 Map.empty)) = []
   \<and> users (state (fetchParallelData 0 0 2 respSecondFails respSecondFails app0 Map.empty))
       \<noteq> [to_json u1, to_json u2]"
  by (simp add: fetchParallelData_def getFromCache_def respSecondFails_def app0_def upt_rec)

text \<open>
  C3, as the code has it, for a request that is rejected: the network fails, or the body
  is not JSON. \<^verbatim>\<open>Promise.all\<close> yields an error exactly when one of the requests is
  rejected. \<^verbatim>\<open>Promise.allSettled\<close> always yields a result, and with two requests of which
  one is rejected its successful data are exactly the records of the other page. In
  \<^verbatim>\<open>fetchParallelData\<close> the partial-success group comes after the fail-fast group in the
  same \<^verbatim>\<open>try\<close> block. On a cache miss, when a request of the fail-fast group is rejected
  the pages are requested once, the error is printed, \<^verbatim>\<open>loading\<close> is cleared and \<^verbatim>\<open>users\<close>
  is left as it was: the partial-success group does not run. When no request of the
  fail-fast group is rejected the pages are requested twice, and \<^verbatim>\<open>users\<close> is the merge of
  the values of the first group with the successful values of the second.
\<close>

theorem fail_fast_then_partial_success:
  "(Promise_all ps = None) = (Rejected \<in> set ps)
   \<and> flat (map val (filter is_Fulfilled (Promise_allSettled [Fulfilled (JArr a), Rejected]))) = a
   \<and> flat (map val (filter is_Fulfilled (Promise_allSettled [Rejected, Fulfilled (JArr b)]))) = b
   \<and> (fst (getFromCache now\<^sub>1 ''users'' ls) = None
        \<and> (\<exists>page \<in> {1..n}. respAll page = Rejected) \<longrightarrow>
      fetchParallelData now\<^sub>1 now\<^sub>2 n respAll respSettled st ls
        = \<lparr>state = st\<lparr>loading := False\<rparr>, storage = snd (getFromCache now\<^sub>1 ''users'' ls),
           requested = [1..<n + 1], logged = [ErrorFetchingData]\<rparr>)
   \<and> (fst (getFromCache now\<^sub>1 ''users'' ls) = None
        \<and> (\<forall>page \<in> {1..n}. respAll page \<noteq> Rejected) \<longrightarrow>
      requested (fetchParallelData now\<^sub>1 now\<^sub>2 n respAll respSettled st ls)
        = [1..<n + 1] @ [1..<n + 1]
      \<and> (combinedUsers_json (flat (map (\<lambda>page. val (respAll page)) [1..<n + 1]))
            (flat (map val (filter is_Fulfilled (map respSettled [1..<n + 1])))) = Inr c \<longrightarrow>
          users (state (fetchParallelData now\<^sub>1 now\<^sub>2 n respAll respSettled st ls)) = c
          \<and> logged (fetchParallelData now\<^sub>1 now\<^sub>2 n respAll respSettled st ls) = []))"
proof (intro conjI impI)
  show "(Promise_all ps = None) = (Rejected \<in> set ps)"
    by (rule Promise_all_None)
  show "flat (map val (filter is_Fulfilled (Promise_allSettled [Fulfilled (JArr a), Rejected]))) = a"
    by (simp add: Promise_allSettled_def flat_def)
  show "flat (map val (filter is_Fulfilled (Promise_allSettled [Rejected, Fulfilled (JArr b)]))) = b"
    by (simp add: Promise_allSettled_def flat_def)
next
  assume "fst (getFromCache now\<^sub>1 ''users'' ls) = None
        \<and> (\<exists>page \<in> {1..n}. respAll page = Rejected)"
  then show "fetchParallelData now\<^sub>1 now\<^sub>2 n respAll respSettled st ls
        = \<lparr>state = st\<lparr>loading := False\<rparr>, storage = snd (getFromCache now\<^sub>1 ''users'' ls),
           requested = [1..<n + 1], logged = [ErrorFetchingData]\<rparr>"
    using fetchParallelData_rejected by blast
next
  assume h: "fst (getFromCache now\<^sub>1 ''users'' ls) = None
        \<and> (\<forall>page \<in> {1..n}. respAll page \<noteq> Rejected)"
  then have f: "fetchParallelData now\<^sub>1 now\<^sub>2 n respAll respSettled st ls
        = (case combinedUsers_json (flat (map (\<lambda>page. val (respAll page)) [1..<n + 1]))
                  (flat (map val (filter is_Fulfilled (map respSettled [1..<n + 1])))) of
             Inl e \<Rightarrow>
               \<lparr>state = st\<lparr>loading := False\<rparr>, storage = snd (getFromCache now\<^sub>1 ''users'' ls),
                requested = [1..<n + 1] @ [1..<n + 1], logged = [ErrorFetchingData]\<rparr>
           | Inr combined \<Rightarrow>
               \<lparr>state = st\<lparr>users := combined, dataSource := Some ''server'', loading := False\<rparr>,
                storage = saveToCache now\<^sub>2 ''users'' combined
                  (snd (getFromCache now\<^sub>1 ''users'' ls)),
                requested = [1..<n + 1] @ [1..<n + 1], logged = []\<rparr>)"
    using fetchParallelData_fulfilled by blast
  show "requested (fetchParallelData now\<^sub>1 now\<^sub>2 n respAll respSettled st ls)
        = [1..<n + 1] @ [1..<n + 1]"
    unfolding f by (simp split: sum.splits)
  assume c: "combinedUsers_json (flat (map (\<lambda>page. val (respAll page)) [1..<n + 1]))
            (flat (map val (filter is_Fulfilled (map respSettled [1..<n + 1])))) = Inr c"
  show "users (state (fetchParallelData now\<^sub>1 now\<^sub>2 n respAll respSettled st ls)) = c"
    unfolding f c by simp
  show "logged (fetchParallelData now\<^sub>1 now\<^sub>2 n respAll respSettled st ls) = []"
    unfolding f c by simp
qed

theorem fail_fast_then_partial_success_witness:
  "fst (getFromCache 0 ''users'' (Map.empty :: json localStorage)) = None
   \<and> respSecondFails 2 = Rejected
   \<and> fetchParallelData 0 0 2 respSecondFails respBoth app0 Map.empty
       = \<lparr>state = app0, storage = Map.empty, requested = [1, 2], logged = [ErrorFetchingData]\<rparr>
   \<and> respBoth 1 \<noteq> Rejected \<and> respBoth 2 \<noteq> Rejected
   \<and> combinedUsers_json [to_json u1, to_json u2, to_json u3, to_json u4] [to_json u1, to_json u2]
       = Inr [to_json u1, to_json u2, to_json u3, to_json u4]
   \<and> users (state (fetchParallelData 0 0 2 respBoth respSecondFails app0 Map.empty))
       = [to_json u1, to_json u2, to_json u3, to_json u4]"
proof -
  have miss: "fst (getFromCache 0 ''users'' (Map.empty :: json localStorage)) = None"
    by (simp add: getFromCache_def)
  have rej: "\<exists>page \<in> {1..2}. respSecondFails page = Rejected"
    by (rule bexI [of _ 2]) (simp_all add: respSecondFails_def)
  have ful: "\<forall>page \<in> {1..2}. respBoth page \<noteq> Rejected"
    by (simp add: respBoth_def)
  have upt: "[1..<2 + 1] = [1, 2::nat]"
    by (simp add: upt_rec)
  note t1 = fail_fast_then_partial_success
    [of "[]" "[]" "[]" 0 Map.empty 2 respSecondFails 0 respBoth app0]
  from miss rej t1
  have "fetchParallelData 0 0 2 respSecondFails respBoth app0 Map.empty
       = \<lparr>state = app0\<lparr>loading := False\<rparr>, storage = snd (getFromCache 0 ''users'' Map.empty),
          requested = [1..<2 + 1], logged = [ErrorFetchingData]\<rparr>"
    by blast
  then have A: "fetchParallelData 0 0 2 respSecondFails respBoth app0 Map.empty
       = \<lparr>state = app0, storage = Map.empty, requested = [1, 2], logged = [ErrorFetchingData]\<rparr>"
    unfolding upt by (simp add: getFromCache_def app0_def)
  have m: "combinedUsers_json [to_json u1, to_json u2, to_json u3, to_json u4]
      [to_json u1, to_json u2] = Inr [to_json u1, to_json u2, to_json u3, to_json u4]"
    using combinedUsers_json_records [of "[u1, u2, u3, u4]" "[u1, u2]"]
    by (simp add: combinedUsers_def findIndex_def u1_def u2_def u3_def u4_def)
  have m': "combinedUsers_json (flat (map (\<lambda>page. val (respBoth page)) [1..<2 + 1]))
      (flat (map val (filter is_Fulfilled (map respSecondFails [1..<2 + 1]))))
    = Inr [to_json u1, to_json u2, to_json u3, to_json u4]"
    unfolding upt using m by (simp add: respBoth_def respSecondFails_def flat_def)
  note t2 = fail_fast_then_partial_success
    [of "[]" "[]" "[]" 0 Map.empty 2 respBoth 0 respSecondFails app0
      "[to_json u1, to_json u2, to_json u3, to_json u4]"]
  from miss ful m' t2
  have B: "users (state (fetchParallelData 0 0 2 respBoth respSecondFails app0 Map.empty))
       = [to_json u1, to_json u2, to_json u3, to_json u4]"
    by blast
  have C: "respSecondFails 2 = Rejected" "respBoth 1 \<noteq> Rejected" "respBoth 2 \<noteq> Rejected"
    by (simp_all add: respSecondFails_def respBoth_def)
  from miss A B C m show ?thesis by (intro conjI)
qed

section \<open>Properties of the streaming ingestor\<close>

subsection \<open>Splitting a text into lines\<close>

lemma split_nl_not_Nil: "split_nl s \<noteq> []"
  by (induction s) (auto split: list.splits)

lemma split_nl_no_newline: "newline \<notin> set s \<Longrightarrow> split_nl s = [s]"
  by (induction s) auto

lemma split_nl_append:
  "split_nl (a @ b) = butlast (split_nl a) @ split_nl (last (split_nl a) @ b)"
proof (induction a)
  case Nil
  then show ?case by simp
next
  case (Cons c a)
  obtain s S where S: "split_nl a = s # S"
    using split_nl_not_Nil [of a] by (cases "split_nl a") auto
  show ?case
  proof (cases "c = newline")
    case True
    with Cons S show ?thesis by simp
  next
    case False
    show ?thesis
    proof (cases S)
      case Nil
      with False Cons S show ?thesis by simp
    next
      case (Cons s' S')
      with False Cons.IH S show ?thesis by simp
    qed
  qed
qed

lemma complete_lines_append:
  "complete_lines (a @ b) = complete_lines a @ complete_lines (last (split_nl a) @ b)"
  by (simp add: complete_lines_def split_nl_append [of a b] butlast_append split_nl_not_Nil)

lemma last_split_nl_append:
  "last (split_nl (a @ b)) = last (split_nl (last (split_nl a) @ b))"
  by (simp add: split_nl_append [of a b] split_nl_not_Nil)

lemma split_nl_line: "newline \<notin> set l \<Longrightarrow> split_nl (l @ newline # t) = l # split_nl t"
  by (induction l) auto

lemma complete_lines_line:
  "newline \<notin> set l \<Longrightarrow> complete_lines (l @ newline # t) = l # complete_lines t"
  by (simp add: complete_lines_def split_nl_line split_nl_not_Nil)

lemma complete_lines_unlines:
  "\<forall>l \<in> set ls. newline \<notin> set l \<Longrightarrow> newline \<notin> set seg \<Longrightarrow>
   complete_lines (concat (map (\<lambda>l. l @ [newline]) ls) @ seg) = ls"
proof (induction ls)
  case Nil
  then show ?case by (simp add: complete_lines_def split_nl_no_newline)
next
  case (Cons l ls)
  then show ?case by (simp add: complete_lines_line)
qed

subsection \<open>The loop over the lines\<close>

lemma line_body_buffer:
  "line_body P l (st\<lparr>buffer := b\<rparr>) = (line_body P l st)\<lparr>buffer := b\<rparr>"
  by (simp add: line_body_def split: sum.splits)

lemma for_lines_buffer:
  "for_lines P N ls (st\<lparr>buffer := b\<rparr>) = (for_lines P N ls st)\<lparr>buffer := b\<rparr>"
  by (induction ls arbitrary: st) (simp_all add: line_body_buffer)

lemma for_lines_done: "N \<le> receivedCount st \<Longrightarrow> for_lines P N ls st = st"
  by (cases ls) simp_all

lemma for_lines_append:
  "for_lines P N (a @ b) st = for_lines P N b (for_lines P N a st)"
  by (induction a arbitrary: st) (simp_all add: for_lines_done)

lemma line_body_count_mono: "receivedCount st \<le> receivedCount (line_body P l st)"
  by (simp add: line_body_def split: sum.splits)

lemma line_body_count_step: "receivedCount (line_body P l st) \<le> receivedCount st + 1"
  by (simp add: line_body_def split: sum.splits)

lemma for_lines_count_mono: "receivedCount st \<le> receivedCount (for_lines P N ls st)"
proof (induction ls arbitrary: st)
  case Nil
  then show ?case by simp
next
  case (Cons l ls)
  from Cons.IH [of "line_body P l st"] line_body_count_mono [of st P l]
  show ?case by simp
qed

lemma for_lines_count_le:
  "receivedCount st \<le> N \<Longrightarrow> receivedCount (for_lines P N ls st) \<le> N"
proof (induction ls arbitrary: st)
  case Nil
  then show ?case by simp
next
  case (Cons l ls)
  show ?case
  proof (cases "N \<le> receivedCount st")
    case True
    with Cons.prems show ?thesis by simp
  next
    case False
    with line_body_count_step [of P l st] have "receivedCount (line_body P l st) \<le> N" by simp
    from Cons.IH [OF this] False show ?thesis by simp
  qed
qed

lemma add_user_length: "length (add_user u us) \<le> length us + 1"
  by (simp add: add_user_def)

lemma line_body_users_le:
  "length (streamUsers st) \<le> receivedCount st \<Longrightarrow>
   length (streamUsers (line_body P l st)) \<le> receivedCount (line_body P l st)"
  using add_user_length by (auto simp: line_body_def add_user_def split: sum.splits)

lemma for_lines_users_le:
  "length (streamUsers st) \<le> receivedCount st \<Longrightarrow>
   length (streamUsers (for_lines P N ls st)) \<le> receivedCount (for_lines P N ls st)"
  by (induction ls arbitrary: st) (simp_all add: line_body_users_le)

subsection \<open>The chunks\<close>

lemma on_chunk_eq:
  "on_chunk P N c st =
     (for_lines P N (complete_lines (buffer st @ c)) st)
       \<lparr>buffer := last (split_nl (buffer st @ c))\<rparr>"
  by (simp add: on_chunk_def Let_def complete_lines_def for_lines_buffer)

lemma feed_Nil: "feed P N [] st = st"
  by (simp add: feed_def)

lemma feed_Cons: "feed P N (c # cs) st = feed P N cs (on_chunk P N c st)"
  by (simp add: feed_def)

lemma feed_snoc: "feed P N (cs @ [c]) st = on_chunk P N c (feed P N cs st)"
  by (simp add: feed_def)

lemma feed_append: "feed P N (a @ b) st = feed P N b (feed P N a st)"
  by (simp add: feed_def)

lemma feed_text:
  "newline \<notin> set (buffer st) \<Longrightarrow>
   feed P N cs st =
     (for_lines P N (complete_lines (buffer st @ concat cs)) st)
       \<lparr>buffer := last (split_nl (buffer st @ concat cs))\<rparr>"
proof (induction cs rule: rev_induct)
  case Nil
  then show ?case
    by (simp add: feed_Nil complete_lines_def split_nl_no_newline)
next
  case (snoc c cs)
  let ?T = "buffer st @ concat cs"
  have "feed P N (cs @ [c]) st = on_chunk P N c (feed P N cs st)"
    by (rule feed_snoc)
  also have "\<dots> = on_chunk P N c
      ((for_lines P N (complete_lines ?T) st)\<lparr>buffer := last (split_nl ?T)\<rparr>)"
    using snoc by simp
  also have "\<dots> = (for_lines P N (complete_lines (last (split_nl ?T) @ c))
        (for_lines P N (complete_lines ?T) st))
      \<lparr>buffer := last (split_nl (last (split_nl ?T) @ c))\<rparr>"
    by (simp add: on_chunk_eq for_lines_buffer)
  also have "\<dots> = (for_lines P N (complete_lines (?T @ c)) st)
      \<lparr>buffer := last (split_nl (?T @ c))\<rparr>"
    by (simp only: complete_lines_append [of ?T c] last_split_nl_append [of ?T c]
        for_lines_append)
  finally show ?case by simp
qed

lemma on_chunk_count_mono: "receivedCount st \<le> receivedCount (on_chunk P N c st)"
  by (simp add: on_chunk_eq for_lines_count_mono)

lemma feed_count_mono: "receivedCount st \<le> receivedCount (feed P N cs st)"
proof (induction cs arbitrary: st)
  case Nil
  then show ?case by (simp add: feed_Nil)
next
  case (Cons c cs)
  from Cons.IH [of "on_chunk P N c st"] on_chunk_count_mono [of st P N c]
  show ?case by (simp add: feed_Cons)
qed

lemma on_chunk_done:
  "N \<le> receivedCount st \<Longrightarrow>
   on_chunk P N c st = st\<lparr>buffer := last (split_nl (buffer st @ c))\<rparr>"
  by (simp add: on_chunk_eq for_lines_done)

lemma feed_done:
  "N \<le> receivedCount st \<Longrightarrow>
   streamUsers (feed P N cs st) = streamUsers st
   \<and> receivedCount (feed P N cs st) = receivedCount st
   \<and> console (feed P N cs st) = console st"
proof (induction cs arbitrary: st)
  case Nil
  then show ?case by (simp add: feed_Nil)
next
  case (Cons c cs)
  from Cons.prems have "N \<le> receivedCount (on_chunk P N c st)"
    by (simp add: on_chunk_done)
  from Cons.IH [OF this] Cons.prems show ?case
    by (simp add: feed_Cons on_chunk_done)
qed

subsection \<open>The loop over the reads\<close>

lemma read_n_length: "read_n read k r = Some (cs, r') \<Longrightarrow> length cs = k"
  by (induction k arbitrary: r cs)
    (auto split: read_result.splits option.splits)

lemma read_loop_steps:
  "read_n read k r = Some (cs, r') \<Longrightarrow>
   (\<forall>j<k. receivedCount (feed P N (take j cs) st) < N) \<Longrightarrow>
   read_loop P N read r st = read_loop P N read r' (feed P N cs st)"
proof (induction k arbitrary: r cs st)
  case 0
  then show ?case by (simp add: feed_Nil)
next
  case (Suc k)
  from Suc.prems(1) obtain c r1 cs1 where
    r: "read r = Chunk c r1" and n: "read_n read k r1 = Some (cs1, r')" and cs: "cs = c # cs1"
    by (auto split: read_result.splits option.splits)
  from Suc.prems(2) have "receivedCount (feed P N (take 0 cs) st) < N" by blast
  then have lt: "receivedCount st < N" by (simp add: feed_Nil)
  have "\<forall>j<k. receivedCount (feed P N (take j cs1) (on_chunk P N c st)) < N"
  proof (intro allI impI)
    fix j assume "j < k"
    then have "Suc j < Suc k" by simp
    with Suc.prems(2) have "receivedCount (feed P N (take (Suc j) cs) st) < N" by blast
    then show "receivedCount (feed P N (take j cs1) (on_chunk P N c st)) < N"
      by (simp add: cs feed_Cons)
  qed
  from Suc.IH [OF n this] have
    "read_loop P N read r1 (on_chunk P N c st)
       = read_loop P N read r' (feed P N cs1 (on_chunk P N c st))" .
  moreover have "read_loop P N read r st = read_loop P N read r1 (on_chunk P N c st)"
    using lt r by (subst read_loop.simps) simp
  ultimately show ?case by (simp add: cs feed_Cons)
qed

lemma below_limit_before:
  assumes "cs \<noteq> []" and "receivedCount (feed P N (butlast cs) st) < N"
  shows "\<forall>j<length cs. receivedCount (feed P N (take j cs) st) < N"
proof (intro allI impI)
  fix j assume j: "j < length cs"
  then have "butlast cs = take j cs @ drop j (butlast cs)"
    by (metis append_take_drop_id butlast_conv_take take_take min.absorb1
        Suc_pred length_greater_0_conv assms(1) less_Suc_eq_le One_nat_def)
  then have "feed P N (butlast cs) st
      = feed P N (drop j (butlast cs)) (feed P N (take j cs) st)"
    by (metis feed_append)
  with feed_count_mono [of "feed P N (take j cs) st" P N "drop j (butlast cs)"] assms(2)
  show "receivedCount (feed P N (take j cs) st) < N" by simp
qed

lemma read_loop_stops:
  assumes "read_n read k r = Some (cs, r')" and "cs \<noteq> []"
    and "receivedCount (feed P N (butlast cs) st) < N"
    and "N \<le> receivedCount (feed P N cs st)"
  shows "read_loop P N read r st = Some (False, r', feed P N cs st)"
proof -
  from read_n_length [OF assms(1)] below_limit_before [OF assms(2,3)]
  have "\<forall>j<k. receivedCount (feed P N (take j cs) st) < N" by simp
  from read_loop_steps [OF assms(1) this]
  have "read_loop P N read r st = read_loop P N read r' (feed P N cs st)" .
  also have "\<dots> = Some (False, r', feed P N cs st)"
    using assms(4) by (subst read_loop.simps) simp
  finally show ?thesis .
qed

lemma read_loop_finite:
  "read_n read k r = Some (cs, r') \<Longrightarrow> read r' = Done \<Longrightarrow>
   \<exists>r'' st'. read_loop P N read r st = Some (False, r'', st')
     \<and> streamUsers st' = streamUsers (feed P N cs st)
     \<and> receivedCount st' = receivedCount (feed P N cs st)
     \<and> console st' = console (feed P N cs st)"
proof (induction k arbitrary: r cs st)
  case 0
  then have "read_loop P N read r st = Some (False, r, st)"
    by (subst read_loop.simps) simp
  with 0 show ?case by (simp add: feed_Nil)
next
  case (Suc k)
  from Suc.prems(1) obtain c r1 cs1 where
    r: "read r = Chunk c r1" and n: "read_n read k r1 = Some (cs1, r')" and cs: "cs = c # cs1"
    by (auto split: read_result.splits option.splits)
  show ?case
  proof (cases "receivedCount st < N")
    case True
    then have "read_loop P N read r st = read_loop P N read r1 (on_chunk P N c st)"
      using r by (subst read_loop.simps) simp
    with Suc.IH [OF n Suc.prems(2), of "on_chunk P N c st"] show ?thesis
      by (simp add: cs feed_Cons)
  next
    case False
    then have "read_loop P N read r st = Some (False, r, st)"
      by (subst read_loop.simps) simp
    moreover from False have "N \<le> receivedCount st" by simp
    note feed_done [OF this, of P cs]
    ultimately show ?thesis by simp
  qed
qed

lemma on_chunk_bounds:
  "receivedCount st \<le> N \<and> length (streamUsers st) \<le> receivedCount st \<Longrightarrow>
   receivedCount (on_chunk P N c st) \<le> N
   \<and> length (streamUsers (on_chunk P N c st)) \<le> receivedCount (on_chunk P N c st)"
  by (simp add: on_chunk_eq for_lines_count_le for_lines_users_le)

lemma read_loop_bounds:
  assumes run: "read_loop P N read r st = Some y"
    and inv: "receivedCount st \<le> N \<and> length (streamUsers st) \<le> receivedCount st"
  shows "receivedCount (snd (snd y)) \<le> N
    \<and> length (streamUsers (snd (snd y))) \<le> receivedCount (snd (snd y))"
proof -
  have "receivedCount st \<le> N \<and> length (streamUsers st) \<le> receivedCount st \<longrightarrow>
    receivedCount (snd (snd y)) \<le> N
    \<and> length (streamUsers (snd (snd y))) \<le> receivedCount (snd (snd y))"
  proof (rule read_loop.raw_induct [where P = "\<lambda>P N read r st y.
      receivedCount st \<le> N \<and> length (streamUsers st) \<le> receivedCount st \<longrightarrow>
      receivedCount (snd (snd y)) \<le> N
      \<and> length (streamUsers (snd (snd y))) \<le> receivedCount (snd (snd y))", OF _ run])
    fix f :: "(string \<Rightarrow> json option) \<Rightarrow> nat \<Rightarrow> ('a \<Rightarrow> 'a read_result) \<Rightarrow> 'a \<Rightarrow> ingest
        \<Rightarrow> (bool \<times> 'a \<times> ingest) option"
    fix P N read r st y
    assume IH: "\<And>P N read r st y. f P N read r st = Some y \<Longrightarrow>
      receivedCount st \<le> N \<and> length (streamUsers st) \<le> receivedCount st \<longrightarrow>
      receivedCount (snd (snd y)) \<le> N
      \<and> length (streamUsers (snd (snd y))) \<le> receivedCount (snd (snd y))"
    assume step: "(if receivedCount st < N
      then case read r of
           Chunk chunk r' \<Rightarrow> f P N read r' (on_chunk P N chunk st)
         | Done \<Rightarrow> Some (False, r, st)
         | Failed \<Rightarrow> Some (True, r, st)
      else Some (False, r, st)) = Some y"
    show "receivedCount st \<le> N \<and> length (streamUsers st) \<le> receivedCount st \<longrightarrow>
      receivedCount (snd (snd y)) \<le> N
      \<and> length (streamUsers (snd (snd y))) \<le> receivedCount (snd (snd y))"
    proof
      assume inv: "receivedCount st \<le> N \<and> length (streamUsers st) \<le> receivedCount st"
      show "receivedCount (snd (snd y)) \<le> N
        \<and> length (streamUsers (snd (snd y))) \<le> receivedCount (snd (snd y))"
      proof (cases "receivedCount st < N")
        case False
        with step have "y = (False, r, st)" by simp
        with inv show ?thesis by simp
      next
        case True
        show ?thesis
        proof (cases "read r")
          case (Chunk c r1)
          with True step have "f P N read r1 (on_chunk P N c st) = Some y" by simp
          from IH [OF this] on_chunk_bounds [OF inv] show ?thesis by blast
        next
          case Done
          with True step have "y = (False, r, st)" by simp
          with inv show ?thesis by simp
        next
          case Failed
          with True step have "y = (True, r, st)" by simp
          with inv show ?thesis by simp
        qed
      qed
    qed
  qed
  with inv show ?thesis by blast
qed

text \<open>
  \<^verbatim>\<open>trim\<close> on white space of more than one byte: a line made of a no-break space and a
  line separator is blank, and a no-break space around a text is removed.
\<close>

lemma js_trim_wide_space:
  "js_trim [CHR 0xC2, CHR 0xA0, CHR 0xE2, CHR 0x80, CHR 0xA8] = []
   \<and> js_trim ([CHR 0xC2, CHR 0xA0] @ ''ab'' @ [CHR 0xC2, CHR 0xA0, CHR 0x20]) = ''ab''"
  by (simp add: js_trim_def is_space_def is_space2_def is_space3_def)

lemmas sample_defs = JSON_parse_sample_def
   line_a_def line_a_again_def line_b_def line_zero_def line_unnamed_def line_bad_def
   user_a_def user_a_again_def user_b_def user_zero_def user_unnamed_def

lemmas trim_defs = js_trim_def is_space_def is_space2_def is_space3_def

lemmas run_defs = ingest0_def line_body_def trim_defs parse_user_def add_user_def id_of_def
  on_chunk_def newline_def


subsection \<open>The whole of \<^verbatim>\<open>streamData\<close>\<close>

lemma streamData_fresh:
  "streamData P N read (fresh_response r) =
     (case read_loop P N read r ingest0 of
        None \<Rightarrow> None
      | Some (threw, r', st) \<Rightarrow>
          Some (if threw then st\<lparr>console := console st @ [StreamingFailed]\<rparr> else st,
                Some \<lparr>source = r', locked = True\<rparr>))"
  by (simp add: streamData_def fresh_response_def ingest0_def Let_def split: option.splits)

lemma streamData_bounds:
  assumes "streamData P N read resp = Some (st, b)"
  shows "length (streamUsers st) \<le> receivedCount st \<and> receivedCount st \<le> N"
proof -
  let ?st0 = "\<lparr>streamUsers = [], receivedCount = 0, buffer = [], console = []\<rparr>"
  have start: "receivedCount ?st0 \<le> N \<and> length (streamUsers ?st0) \<le> receivedCount ?st0"
    by simp
  show ?thesis
  proof (cases "\<exists>s src. resp = Some (Response True s (Some \<lparr>source = src, locked = False\<rparr>))")
    case True
    then obtain s src where
      resp: "resp = Some (Response True s (Some \<lparr>source = src, locked = False\<rparr>))"
      by blast
    with assms obtain threw r' st' where
      run: "read_loop P N read src ?st0 = Some (threw, r', st')"
      and st: "st = (if threw then st'\<lparr>console := console st' @ [StreamingFailed]\<rparr> else st')"
      by (auto simp: streamData_def Let_def split: option.splits)
    from read_loop_bounds [OF run start] st show ?thesis by simp
  next
    case False
    have "st = ?st0\<lparr>console := console ?st0 @ [StreamingFailed]\<rparr>"
    proof (cases resp)
      case None
      with assms show ?thesis by (simp add: streamData_def Let_def)
    next
      case (Some response)
      obtain o' s bo where response: "response = Response o' s bo" by (cases response)
      show ?thesis
      proof (cases bo)
        case None
        with assms Some response show ?thesis
          by (simp add: streamData_def Let_def split: if_splits)
      next
        case (Some strm)
        obtain src lk where strm: "strm = \<lparr>source = src, locked = lk\<rparr>" by (cases strm) simp
        from False \<open>resp = Some response\<close> response Some strm have "\<not> o' \<or> lk" by simp
        with assms \<open>resp = Some response\<close> response Some strm show ?thesis
          by (auto simp: streamData_def Let_def split: if_splits)
      qed
    qed
    then show ?thesis by simp
  qed
qed

lemma read_loop_finite_all:
  "read_n read k r = Some (cs, r') \<Longrightarrow> read r' = Done \<Longrightarrow>
   receivedCount (feed P N cs st) < N \<Longrightarrow>
   read_loop P N read r st = Some (False, r', feed P N cs st)"
proof -
  assume n: "read_n read k r = Some (cs, r')" and d: "read r' = Done"
    and lt: "receivedCount (feed P N cs st) < N"
  have "\<forall>j<k. receivedCount (feed P N (take j cs) st) < N"
  proof (intro allI impI)
    fix j assume "j < k"
    have "feed P N cs st = feed P N (drop j cs) (feed P N (take j cs) st)"
      by (metis append_take_drop_id feed_append)
    with feed_count_mono [of "feed P N (take j cs) st" P N "drop j cs"] lt
    show "receivedCount (feed P N (take j cs) st) < N" by simp
  qed
  from read_loop_steps [OF n this]
  have "read_loop P N read r st = read_loop P N read r' (feed P N cs st)" .
  also have "\<dots> = Some (False, r', feed P N cs st)"
    using lt d by (subst read_loop.simps) simp
  finally show ?thesis .
qed

lemma last_split_nl_unlines:
  "\<forall>l \<in> set ls. newline \<notin> set l \<Longrightarrow> newline \<notin> set seg \<Longrightarrow>
   last (split_nl (unlines ls @ seg)) = seg"
proof (induction ls)
  case Nil
  then show ?case by (simp add: unlines_def split_nl_no_newline)
next
  case (Cons l ls)
  then show ?case
    by (simp add: unlines_def split_nl_line split_nl_not_Nil)
qed

lemma streamData_finite:
  assumes n: "read_n read k r = Some (cs, r')" and d: "read r' = Done"
    and ls: "\<forall>l \<in> set ls. newline \<notin> set l" and seg: "newline \<notin> set seg"
    and cat: "concat cs = unlines ls @ seg"
  shows "\<exists>st b. streamData P N read (fresh_response r) = Some (st, b)
     \<and> streamUsers st = streamUsers (for_lines P N ls ingest0)
     \<and> receivedCount st = receivedCount (for_lines P N ls ingest0)
     \<and> console st = console (for_lines P N ls ingest0)
     \<and> (receivedCount st < N \<longrightarrow> buffer st = seg)"
proof -
  have f: "feed P N cs ingest0
      = (for_lines P N ls ingest0)\<lparr>buffer := seg\<rparr>"
    using feed_text [of ingest0 P N cs] complete_lines_unlines [OF ls seg]
      last_split_nl_unlines [OF ls seg]
    by (simp add: ingest0_def cat unlines_def)
  from read_loop_finite [OF n d, of P N ingest0] obtain r'' st' where
    run: "read_loop P N read r ingest0 = Some (False, r'', st')"
    and same: "streamUsers st' = streamUsers (feed P N cs ingest0)"
      "receivedCount st' = receivedCount (feed P N cs ingest0)"
      "console st' = console (feed P N cs ingest0)"
    by blast
  have "receivedCount st' < N \<longrightarrow> buffer st' = seg"
  proof
    assume "receivedCount st' < N"
    with same have "receivedCount (feed P N cs ingest0) < N" by simp
    from read_loop_finite_all [OF n d this] run have "st' = feed P N cs ingest0" by simp
    with f show "buffer st' = seg" by simp
  qed
  with run same f show ?thesis
    by (simp add: streamData_fresh)
qed

subsection \<open>Lines that are rejected, and lines that are accepted\<close>

lemma line_body_rejected:
  "js_trim l \<noteq> [] \<Longrightarrow> parse_user P l = Inl e \<Longrightarrow>
   line_body P l st = st\<lparr>console := console st @ [ErrorParsingChunk l e]\<rparr>"
  by (simp add: line_body_def)

lemma line_body_same_records:
  "streamUsers a = streamUsers b \<Longrightarrow> receivedCount a = receivedCount b \<Longrightarrow>
   streamUsers (line_body P l a) = streamUsers (line_body P l b)
   \<and> receivedCount (line_body P l a) = receivedCount (line_body P l b)"
  by (simp add: line_body_def split: sum.splits)

lemma for_lines_same_records:
  "streamUsers a = streamUsers b \<Longrightarrow> receivedCount a = receivedCount b \<Longrightarrow>
   streamUsers (for_lines P N ls a) = streamUsers (for_lines P N ls b)
   \<and> receivedCount (for_lines P N ls a) = receivedCount (for_lines P N ls b)"
proof (induction ls arbitrary: a b)
  case Nil
  then show ?case by simp
next
  case (Cons l ls)
  from line_body_same_records [OF Cons.prems, of P l]
  have "streamUsers (line_body P l a) = streamUsers (line_body P l b)"
    and "receivedCount (line_body P l a) = receivedCount (line_body P l b)"
    by simp_all
  from Cons.IH [OF this] Cons.prems show ?case by simp
qed

lemma line_body_console_mono: "set (console st) \<subseteq> set (console (line_body P l st))"
  by (auto simp: line_body_def split: sum.splits)

lemma for_lines_console_mono: "set (console st) \<subseteq> set (console (for_lines P N ls st))"
proof (induction ls arbitrary: st)
  case Nil
  then show ?case by simp
next
  case (Cons l ls)
  from Cons.IH [of "line_body P l st"] line_body_console_mono [of st P l]
  show ?case by auto
qed

lemma add_user_mono: "set us \<subseteq> set (add_user u us)"
  by (auto simp: add_user_def)

lemma add_user_present:
  "\<exists>u' \<in> set (add_user u us). u' = u \<or> strict_eq (id_of u') (id_of u)"
  by (auto simp: add_user_def list_ex_iff)

lemma line_body_users_mono: "set (streamUsers st) \<subseteq> set (streamUsers (line_body P l st))"
  using add_user_mono by (auto simp: line_body_def split: sum.splits)

lemma for_lines_users_mono:
  "set (streamUsers st) \<subseteq> set (streamUsers (for_lines P N ls st))"
proof (induction ls arbitrary: st)
  case Nil
  then show ?case by simp
next
  case (Cons l ls)
  from Cons.IH [of "line_body P l st"] line_body_users_mono [of st P l]
  show ?case by auto
qed

lemma for_lines_all_accepted:
  "receivedCount (for_lines P N ls st) < N \<Longrightarrow> l \<in> set ls \<Longrightarrow>
   js_trim l \<noteq> [] \<Longrightarrow> parse_user P l = Inr u \<Longrightarrow>
   \<exists>u' \<in> set (streamUsers (for_lines P N ls st)). u' = u \<or> strict_eq (id_of u') (id_of u)"
proof (induction ls arbitrary: st)
  case Nil
  then show ?case by simp
next
  case (Cons x ls)
  from Cons.prems(1) for_lines_count_mono [of st P N "x # ls"]
  have lt: "receivedCount st < N" by simp
  then have step: "for_lines P N (x # ls) st = for_lines P N ls (line_body P x st)"
    by simp
  show ?case
  proof (cases "l = x")
    case True
    with Cons.prems(3,4) have
      "streamUsers (line_body P x st) = add_user u (streamUsers st)"
      by (simp add: line_body_def)
    with add_user_present [of u "streamUsers st"] obtain u' where
      "u' \<in> set (streamUsers (line_body P x st))" "u' = u \<or> strict_eq (id_of u') (id_of u)"
      by auto
    with for_lines_users_mono [of "line_body P x st" P N ls] step show ?thesis
      by auto
  next
    case False
    with Cons.prems(2) have "l \<in> set ls" by simp
    from Cons.IH [OF _ this Cons.prems(3,4), of "line_body P x st"] Cons.prems(1) step
    show ?thesis by simp
  qed
qed

subsection \<open>Validation, repeated identifiers, the limit and the last segment\<close>

text \<open>
  C10. Validation rejects a parsed record whose \<^verbatim>\<open>id\<close> or \<^verbatim>\<open>name\<close> is falsy: the line
  is reported with the error \<^verbatim>\<open>Invalid user data\<close>, and neither \<^verbatim>\<open>streamUsers\<close> nor
  the count changes. The number 0 and the empty string are falsy, as are a missing field,
  \<^verbatim>\<open>null\<close> and \<^verbatim>\<open>false\<close>; so a record with the identifier 0 is skipped.
\<close>

theorem falsy_id_or_name_is_rejected:
  "(JSON_parse line = Some user \<and> get_prop user ''id'' = Inr i
      \<and> get_prop user ''name'' = Inr n \<and> (\<not> truthy i \<or> \<not> truthy n) \<longrightarrow>
      parse_user JSON_parse line = Inl InvalidUserData
      \<and> (js_trim line \<noteq> [] \<longrightarrow>
           line_body JSON_parse line st
             = st\<lparr>console := console st @ [ErrorParsingChunk line InvalidUserData]\<rparr>))
   \<and> get_prop (JObj kvs) k = Inr (map_of kvs k)
   \<and> \<not> truthy (Some (JNum 0)) \<and> \<not> truthy (Some (JStr []))
   \<and> \<not> truthy None \<and> \<not> truthy (Some JNull) \<and> \<not> truthy (Some (JBool False))"
  by (auto simp: parse_user_def line_body_def)

theorem falsy_id_or_name_is_rejected_witness:
  "JSON_parse_sample line_zero = Some user_zero
   \<and> get_prop user_zero ''id'' = Inr (Some (JNum 0))
   \<and> get_prop user_zero ''name'' = Inr (Some (JStr ''Z''))
   \<and> \<not> truthy (Some (JNum 0))
   \<and> js_trim line_zero \<noteq> []
   \<and> line_body JSON_parse_sample line_zero ingest0
       = ingest0\<lparr>console := [ErrorParsingChunk line_zero InvalidUserData]\<rparr>
   \<and> JSON_parse_sample line_unnamed = Some user_unnamed
   \<and> parse_user JSON_parse_sample line_unnamed = Inl InvalidUserData"
proof -
  have z: "JSON_parse_sample line_zero = Some user_zero"
    "get_prop user_zero ''id'' = Inr (Some (JNum 0))"
    "get_prop user_zero ''name'' = Inr (Some (JStr ''Z''))"
    "js_trim line_zero \<noteq> []"
    by (simp_all add: sample_defs trim_defs)
  have n: "JSON_parse_sample line_unnamed = Some user_unnamed"
    "get_prop user_unnamed ''id'' = Inr (Some (JNum 3))"
    "get_prop user_unnamed ''name'' = Inr (Some (JStr []))"
    by (simp_all add: sample_defs)
  have f: "\<not> truthy (Some (JNum 0))" "\<not> truthy (Some (JStr []))"
    by simp_all
  from z f falsy_id_or_name_is_rejected
    [of JSON_parse_sample line_zero user_zero "Some (JNum 0)" "Some (JStr ''Z'')" ingest0]
  have A: "line_body JSON_parse_sample line_zero ingest0
       = ingest0\<lparr>console := [ErrorParsingChunk line_zero InvalidUserData]\<rparr>"
    by (simp add: ingest0_def)
  from n f falsy_id_or_name_is_rejected
    [of JSON_parse_sample line_unnamed user_unnamed "Some (JNum 3)" "Some (JStr [])"]
  have B: "parse_user JSON_parse_sample line_unnamed = Inl InvalidUserData"
    by simp
  from z n f A B show ?thesis by simp
qed

text \<open>
  C9. A line that parses to a valid record whose \<^verbatim>\<open>id\<close> is that of a record already in
  \<^verbatim>\<open>streamUsers\<close> leaves \<^verbatim>\<open>streamUsers\<close> as it is and adds one to the count that is
  compared with the limit. So with the limit 2, on a stream of three lines of which the
  second repeats the identifier of the first, the run ends after two reads with one record:
  the third line, a valid record with another identifier, is left in the stream.
\<close>

theorem duplicate_counts_towards_limit:
  "(js_trim l \<noteq> [] \<and> parse_user P l = Inr u
      \<and> list_ex (\<lambda>u'. strict_eq (id_of u') (id_of u)) (streamUsers st) \<longrightarrow>
      line_body P l st = st\<lparr>receivedCount := receivedCount st + 1\<rparr>)
   \<and> streamData JSON_parse_sample 2 list_source
        (fresh_response [line_a @ [newline], line_a_again @ [newline], line_b @ [newline]])
       = Some (\<lparr>streamUsers = [user_a], receivedCount = 2, buffer = [], console = []\<rparr>,
               Some \<lparr>source = [line_b @ [newline]], locked = True\<rparr>)
   \<and> parse_user JSON_parse_sample line_b = Inr user_b
   \<and> \<not> strict_eq (id_of user_a) (id_of user_b)"
proof -
  have a: "line_body P l st = st\<lparr>receivedCount := receivedCount st + 1\<rparr>"
    if "js_trim l \<noteq> []" "parse_user P l = Inr u"
      "list_ex (\<lambda>u'. strict_eq (id_of u') (id_of u)) (streamUsers st)"
    using that by (simp add: line_body_def add_user_def)
  have "read_loop JSON_parse_sample 2 list_source
      [line_a @ [newline], line_a_again @ [newline], line_b @ [newline]] ingest0
    = Some (False, [line_b @ [newline]],
        \<lparr>streamUsers = [user_a], receivedCount = 2, buffer = [], console = []\<rparr>)"
    apply (subst read_loop.simps)
    apply (simp add: list_source_def ingest0_def)
    apply (subst read_loop.simps)
    apply (simp add: run_defs sample_defs list_source_def)
    apply (subst read_loop.simps)
    apply (simp add: run_defs sample_defs)
    done
  then have b: "streamData JSON_parse_sample 2 list_source
        (fresh_response [line_a @ [newline], line_a_again @ [newline], line_b @ [newline]])
       = Some (\<lparr>streamUsers = [user_a], receivedCount = 2, buffer = [], console = []\<rparr>,
               Some \<lparr>source = [line_b @ [newline]], locked = True\<rparr>)"
    by (simp add: streamData_fresh)
  have c: "parse_user JSON_parse_sample line_b = Inr user_b"
    "\<not> strict_eq (id_of user_a) (id_of user_b)"
    by (simp_all add: parse_user_def id_of_def sample_defs)
  from a b c show ?thesis by blast
qed

theorem duplicate_counts_towards_limit_witness:
  "js_trim line_a_again \<noteq> []
   \<and> parse_user JSON_parse_sample line_a_again = Inr user_a_again
   \<and> list_ex (\<lambda>u'. strict_eq (id_of u') (id_of user_a_again)) [user_a]
   \<and> line_body JSON_parse_sample line_a_again
        \<lparr>streamUsers = [user_a], receivedCount = 1, buffer = [], console = []\<rparr>
       = \<lparr>streamUsers = [user_a], receivedCount = 2, buffer = [], console = []\<rparr>"
proof -
  have h: "js_trim line_a_again \<noteq> []"
    "parse_user JSON_parse_sample line_a_again = Inr user_a_again"
    "list_ex (\<lambda>u'. strict_eq (id_of u') (id_of user_a_again)) [user_a]"
    by (simp_all add: trim_defs parse_user_def id_of_def sample_defs)
  from h duplicate_counts_towards_limit [of line_a_again JSON_parse_sample user_a_again
      "\<lparr>streamUsers = [user_a], receivedCount = 1, buffer = [], console = []\<rparr>"]
  have "line_body JSON_parse_sample line_a_again
        \<lparr>streamUsers = [user_a], receivedCount = 1, buffer = [], console = []\<rparr>
       = \<lparr>streamUsers = [user_a], receivedCount = 2, buffer = [], console = []\<rparr>"
    by simp
  with h show ?thesis by blast
qed

text \<open>
  C2, on the code. With the limit 1, on a stream of two chunks of one line each, the run
  ends after the first read with one record. The body of the response is then still locked
  by the reader, and its source still has the second chunk to give: the stream is neither
  closed nor released.
\<close>

theorem stream_left_locked_counterexample:
  "streamData JSON_parse_sample 1 list_source
       (fresh_response [line_a @ [newline], line_b @ [newline]])
     = Some (\<lparr>streamUsers = [user_a], receivedCount = 1, buffer = [], console = []\<rparr>,
             Some \<lparr>source = [line_b @ [newline]], locked = True\<rparr>)
   \<and> list_source [line_b @ [newline]] = Chunk (line_b @ [newline]) []"
proof -
  have "read_loop JSON_parse_sample 1 list_source
      [line_a @ [newline], line_b @ [newline]] ingest0
    = Some (False, [line_b @ [newline]],
        \<lparr>streamUsers = [user_a], receivedCount = 1, buffer = [], console = []\<rparr>)"
    apply (subst read_loop.simps)
    apply (simp add: list_source_def ingest0_def)
    apply (subst read_loop.simps)
    apply (simp add: run_defs sample_defs)
    done
  then show ?thesis
    by (simp add: streamData_fresh list_source_def)
qed

text \<open>
  C2, as the code has it. Whatever the response and the source, when \<^verbatim>\<open>streamData\<close>
  returns, \<^verbatim>\<open>streamUsers\<close> has at most as many records as were counted, and at most
  \<open>N\<close> were counted. When the count reaches \<open>N\<close> with the chunk of the \<open>k\<close>-th read
  and not before, \<^verbatim>\<open>streamData\<close> returns after these \<open>k\<close> reads, whatever the source
  would give next: the source is left in the state that follows the \<open>k\<close>-th read. The
  body is left locked by its reader: nothing cancels or releases it.
\<close>

theorem stream_stops_at_limit:
  "(streamData P N read resp = Some (st, b) \<longrightarrow>
      length (streamUsers st) \<le> receivedCount st \<and> receivedCount st \<le> N)
   \<and> (read_n read k r = Some (cs, r') \<and> cs \<noteq> []
        \<and> receivedCount (feed P N (butlast cs) ingest0) < N
        \<and> N \<le> receivedCount (feed P N cs ingest0) \<longrightarrow>
      streamData P N read (fresh_response r)
        = Some (feed P N cs ingest0, Some \<lparr>source = r', locked = True\<rparr>)
      \<and> receivedCount (feed P N cs ingest0) = N)"
proof -
  have a: "length (streamUsers st) \<le> receivedCount st \<and> receivedCount st \<le> N"
    if "streamData P N read resp = Some (st, b)"
    using that by (rule streamData_bounds)
  have b: "streamData P N read (fresh_response r)
        = Some (feed P N cs ingest0, Some \<lparr>source = r', locked = True\<rparr>)
      \<and> receivedCount (feed P N cs ingest0) = N"
    if n: "read_n read k r = Some (cs, r')" and ne: "cs \<noteq> []"
      and lt: "receivedCount (feed P N (butlast cs) ingest0) < N"
      and ge: "N \<le> receivedCount (feed P N cs ingest0)"
  proof -
    from read_loop_stops [OF n ne lt ge]
    have run: "streamData P N read (fresh_response r)
        = Some (feed P N cs ingest0, Some \<lparr>source = r', locked = True\<rparr>)"
      by (simp add: streamData_fresh)
    from streamData_bounds [OF run] ge show ?thesis using run by simp
  qed
  from a b show ?thesis by blast
qed

theorem stream_stops_at_limit_witness:
  "read_n list_source 1 [line_a @ [newline], line_b @ [newline]]
     = Some ([line_a @ [newline]], [line_b @ [newline]])
   \<and> receivedCount (feed JSON_parse_sample 1 (butlast [line_a @ [newline]]) ingest0) < 1
   \<and> 1 \<le> receivedCount (feed JSON_parse_sample 1 [line_a @ [newline]] ingest0)
   \<and> streamData JSON_parse_sample 1 list_source
        (fresh_response [line_a @ [newline], line_b @ [newline]])
       = Some (\<lparr>streamUsers = [user_a], receivedCount = 1, buffer = [], console = []\<rparr>,
               Some \<lparr>source = [line_b @ [newline]], locked = True\<rparr>)
   \<and> length [user_a] \<le> (1::nat)"
proof -
  have n: "read_n list_source 1 [line_a @ [newline], line_b @ [newline]]
     = Some ([line_a @ [newline]], [line_b @ [newline]])"
    by (simp add: list_source_def)
  have ne: "[line_a @ [newline]] \<noteq> []" by simp
  have f: "feed JSON_parse_sample 1 [line_a @ [newline]] ingest0
     = \<lparr>streamUsers = [user_a], receivedCount = 1, buffer = [], console = []\<rparr>"
    by (simp add: feed_def run_defs sample_defs)
  have lt: "receivedCount (feed JSON_parse_sample 1 (butlast [line_a @ [newline]]) ingest0) < 1"
    by (simp add: feed_def ingest0_def)
  have ge: "1 \<le> receivedCount (feed JSON_parse_sample 1 [line_a @ [newline]] ingest0)"
    unfolding f by simp
  from n ne lt ge stream_stops_at_limit [of JSON_parse_sample 1 list_source
      "fresh_response [line_a @ [newline], line_b @ [newline]]"
      "\<lparr>streamUsers = [user_a], receivedCount = 1, buffer = [], console = []\<rparr>"
      "Some \<lparr>source = [line_b @ [newline]], locked = True\<rparr>"
      1 "[line_a @ [newline], line_b @ [newline]]" "[line_a @ [newline]]"
      "[line_b @ [newline]]"]
  have "streamData JSON_parse_sample 1 list_source
        (fresh_response [line_a @ [newline], line_b @ [newline]])
       = Some (feed JSON_parse_sample 1 [line_a @ [newline]] ingest0,
               Some \<lparr>source = [line_b @ [newline]], locked = True\<rparr>)"
    by blast
  then have run: "streamData JSON_parse_sample 1 list_source
        (fresh_response [line_a @ [newline], line_b @ [newline]])
       = Some (\<lparr>streamUsers = [user_a], receivedCount = 1, buffer = [], console = []\<rparr>,
               Some \<lparr>source = [line_b @ [newline]], locked = True\<rparr>)"
    unfolding f .
  have "length [user_a] \<le> (1::nat)" by simp
  with n lt ge run show ?thesis by blast
qed

text \<open>
  C5, on the code. The stream is the single chunk \<open>line_a\<close>, a valid record with no
  newline after it, and then ends. \<^verbatim>\<open>streamData\<close> returns with no record: the line is
  still in \<^verbatim>\<open>buffer\<close> and was never parsed.
\<close>

theorem last_line_without_newline_counterexample:
  "parse_user JSON_parse_sample line_a = Inr user_a
   \<and> list_source [] = Done
   \<and> streamData JSON_parse_sample 5 list_source (fresh_response [line_a])
       = Some (\<lparr>streamUsers = [], receivedCount = 0, buffer = line_a, console = []\<rparr>,
               Some \<lparr>source = [], locked = True\<rparr>)"
proof -
  have "read_loop JSON_parse_sample 5 list_source [line_a] ingest0
    = Some (False, [], \<lparr>streamUsers = [], receivedCount = 0, buffer = line_a, console = []\<rparr>)"
    apply (subst read_loop.simps)
    apply (simp add: list_source_def ingest0_def)
    apply (subst read_loop.simps)
    apply (simp add: run_defs sample_defs list_source_def)
    done
  then show ?thesis
    by (simp add: streamData_fresh list_source_def parse_user_def sample_defs)
qed

text \<open>
  C5, as the code has it. Let a source give the chunks \<open>cs\<close> and then end, and let the
  text of the chunks be the lines \<open>ls\<close>, each ended by a newline, followed by a segment
  \<open>seg\<close> with no newline. Then \<^verbatim>\<open>streamData\<close> returns, and its records, its count and its
  reports are those of the loop over the lines \<open>ls\<close>, wherever the chunks cut the text:
  a segment is kept in \<^verbatim>\<open>buffer\<close> across the reads and parsed once its newline has
  arrived. The segment \<open>seg\<close> is not parsed, the end of the stream included: when the limit
  was not reached it is what \<^verbatim>\<open>buffer\<close> holds at the end.
\<close>

theorem segment_parsed_when_newline_arrives:
  assumes "read_n read k r = Some (cs, r')" and "read r' = Done"
    and "\<forall>l \<in> set ls. newline \<notin> set l" and "newline \<notin> set seg"
    and "concat cs = unlines ls @ seg"
  shows "\<exists>st b. streamData P N read (fresh_response r) = Some (st, b)
     \<and> streamUsers st = streamUsers (for_lines P N ls ingest0)
     \<and> receivedCount st = receivedCount (for_lines P N ls ingest0)
     \<and> console st = console (for_lines P N ls ingest0)
     \<and> (receivedCount st < N \<longrightarrow> buffer st = seg)"
  using assms by (rule streamData_finite)


theorem segment_parsed_when_newline_arrives_witness:
  "read_n list_source 2 [chunk_1, chunk_2] = Some ([chunk_1, chunk_2], [])
   \<and> list_source [] = Done
   \<and> newline \<notin> set line_a \<and> newline \<notin> set line_b
   \<and> concat [chunk_1, chunk_2] = unlines [line_a] @ line_b
   \<and> (\<exists>st b. streamData JSON_parse_sample 5 list_source (fresh_response [chunk_1, chunk_2])
          = Some (st, b)
        \<and> streamUsers st = [user_a] \<and> receivedCount st = 1 \<and> buffer st = line_b)"
proof -
  have n: "read_n list_source 2 [chunk_1, chunk_2] = Some ([chunk_1, chunk_2], [])"
    by (simp add: list_source_def numeral_2_eq_2)
  have d: "list_source [] = Done"
    by (simp add: list_source_def)
  have nl: "newline \<notin> set line_a" "newline \<notin> set line_b"
    by (simp_all add: newline_def line_a_def line_b_def)
  then have ls: "\<forall>l \<in> set [line_a]. newline \<notin> set l" by simp
  have cat: "concat [chunk_1, chunk_2] = unlines [line_a] @ line_b"
    by (simp add: chunk_1_def chunk_2_def unlines_def line_a_def line_b_def)
  have f: "for_lines JSON_parse_sample 5 [line_a] ingest0
     = \<lparr>streamUsers = [user_a], receivedCount = 1, buffer = [], console = []\<rparr>"
    by (simp add: run_defs sample_defs)
  from segment_parsed_when_newline_arrives [OF n d ls nl(2) cat, of JSON_parse_sample 5]
  obtain st b where
    "streamData JSON_parse_sample 5 list_source (fresh_response [chunk_1, chunk_2]) = Some (st, b)"
    "streamUsers st = streamUsers (for_lines JSON_parse_sample 5 [line_a] ingest0)"
    "receivedCount st = receivedCount (for_lines JSON_parse_sample 5 [line_a] ingest0)"
    "receivedCount st < 5 \<longrightarrow> buffer st = line_b"
    by blast
  then have "\<exists>st b. streamData JSON_parse_sample 5 list_source (fresh_response [chunk_1, chunk_2])
          = Some (st, b)
        \<and> streamUsers st = [user_a] \<and> receivedCount st = 1 \<and> buffer st = line_b"
    unfolding f by simp
  with n d nl cat show ?thesis by blast
qed

text \<open>
  C6, on the code. The empty line fails to parse but is never given to \<^verbatim>\<open>JSON.parse\<close>:
  on the lines \<open>line_a\<close>, the empty line and \<open>line_b\<close> the run accepts both records and
  prints nothing. With the limit 1, on the lines \<open>line_a\<close>, \<open>line_bad\<close> and \<open>line_b\<close>,
  the run ends after \<open>line_a\<close>: the malformed line is not reported, and the valid line
  after it is not accepted.
\<close>

theorem unlogged_line_counterexample:
  "parse_user JSON_parse_sample [] = Inl SyntaxError
   \<and> streamData JSON_parse_sample 5 list_source (fresh_response [unlines [line_a, [], line_b]])
       = Some (\<lparr>streamUsers = [user_a, user_b], receivedCount = 2, buffer = [], console = []\<rparr>,
               Some \<lparr>source = [], locked = True\<rparr>)
   \<and> parse_user JSON_parse_sample line_bad = Inl SyntaxError
   \<and> parse_user JSON_parse_sample line_b = Inr user_b
   \<and> streamData JSON_parse_sample 1 list_source
         (fresh_response [unlines [line_a, line_bad, line_b]])
       = Some (\<lparr>streamUsers = [user_a], receivedCount = 1, buffer = [], console = []\<rparr>,
               Some \<lparr>source = [], locked = True\<rparr>)"
proof -
  have p: "parse_user JSON_parse_sample [] = Inl SyntaxError"
    "parse_user JSON_parse_sample line_bad = Inl SyntaxError"
    "parse_user JSON_parse_sample line_b = Inr user_b"
    by (simp_all add: parse_user_def sample_defs)
  have "read_loop JSON_parse_sample 5 list_source [unlines [line_a, [], line_b]] ingest0
    = Some (False, [],
        \<lparr>streamUsers = [user_a, user_b], receivedCount = 2, buffer = [], console = []\<rparr>)"
    apply (subst read_loop.simps)
    apply (simp add: list_source_def ingest0_def)
    apply (subst read_loop.simps)
    apply (simp add: run_defs sample_defs unlines_def list_source_def)
    done
  then have a: "streamData JSON_parse_sample 5 list_source
      (fresh_response [unlines [line_a, [], line_b]])
    = Some (\<lparr>streamUsers = [user_a, user_b], receivedCount = 2, buffer = [], console = []\<rparr>,
            Some \<lparr>source = [], locked = True\<rparr>)"
    by (simp add: streamData_fresh)
  have "read_loop JSON_parse_sample 1 list_source [unlines [line_a, line_bad, line_b]] ingest0
    = Some (False, [],
        \<lparr>streamUsers = [user_a], receivedCount = 1, buffer = [], console = []\<rparr>)"
    apply (subst read_loop.simps)
    apply (simp add: list_source_def ingest0_def)
    apply (subst read_loop.simps)
    apply (simp add: run_defs sample_defs unlines_def)
    done
  then have b: "streamData JSON_parse_sample 1 list_source
      (fresh_response [unlines [line_a, line_bad, line_b]])
    = Some (\<lparr>streamUsers = [user_a], receivedCount = 1, buffer = [], console = []\<rparr>,
            Some \<lparr>source = [], locked = True\<rparr>)"
    by (simp add: streamData_fresh)
  from p a b show ?thesis by (intro conjI)
qed

text \<open>
  C6, as the code has it. A blank line is skipped and nothing is printed. A line that is
  not blank and on which \<^verbatim>\<open>JSON.parse\<close> or the validation throws is reported by
  \<^verbatim>\<open>console.error\<close> and changes neither \<^verbatim>\<open>streamUsers\<close> nor the count, and the loop goes
  on: the records and the count after the lines \<open>ls1\<close>, the line and the lines \<open>ls2\<close>
  are those after \<open>ls1\<close> and \<open>ls2\<close> alone, and the report of the line is printed if the
  limit was not reached before it. For a source that gives the text of these lines and
  then ends, \<^verbatim>\<open>streamData\<close> returns the records of the loop over \<open>ls1\<close> and \<open>ls2\<close>, with
  the report of the line if the limit was not reached before it; and when it ends below
  the limit, every valid line of \<open>ls1\<close> and \<open>ls2\<close> has its record in \<^verbatim>\<open>streamUsers\<close>,
  or a record with the same \<^verbatim>\<open>id\<close> that came before.
\<close>

theorem malformed_line_is_skipped:
  assumes "js_trim l \<noteq> []" and "parse_user P l = Inl e"
  shows
    "(js_trim blank = [] \<longrightarrow> line_body P blank st = st)
     \<and> line_body P l st = st\<lparr>console := console st @ [ErrorParsingChunk l e]\<rparr>
     \<and> streamUsers (for_lines P N (ls1 @ l # ls2) st) = streamUsers (for_lines P N (ls1 @ ls2) st)
     \<and> receivedCount (for_lines P N (ls1 @ l # ls2) st)
         = receivedCount (for_lines P N (ls1 @ ls2) st)
     \<and> (receivedCount (for_lines P N ls1 st) < N \<longrightarrow>
          ErrorParsingChunk l e \<in> set (console (for_lines P N (ls1 @ l # ls2) st)))
     \<and> (read_n read k r = Some (cs, r') \<and> read r' = Done
          \<and> (\<forall>x \<in> set (ls1 @ l # ls2). newline \<notin> set x) \<and> newline \<notin> set seg
          \<and> concat cs = unlines (ls1 @ l # ls2) @ seg \<longrightarrow>
        (\<exists>st' b. streamData P N read (fresh_response r) = Some (st', b)
           \<and> streamUsers st' = streamUsers (for_lines P N (ls1 @ ls2) ingest0)
           \<and> receivedCount st' = receivedCount (for_lines P N (ls1 @ ls2) ingest0)
           \<and> (receivedCount (for_lines P N ls1 ingest0) < N \<longrightarrow>
                ErrorParsingChunk l e \<in> set (console st'))
           \<and> (receivedCount st' < N \<longrightarrow>
                (\<forall>x \<in> set (ls1 @ ls2). \<forall>u. js_trim x \<noteq> [] \<and> parse_user P x = Inr u \<longrightarrow>
                   (\<exists>u' \<in> set (streamUsers st'). u' = u \<or> strict_eq (id_of u') (id_of u))))))"
proof -
  have body: "line_body P l s = s\<lparr>console := console s @ [ErrorParsingChunk l e]\<rparr>" for s
    using assms by (rule line_body_rejected)
  have skip: "streamUsers (for_lines P N (ls1 @ l # ls2) s) = streamUsers (for_lines P N (ls1 @ ls2) s)
     \<and> receivedCount (for_lines P N (ls1 @ l # ls2) s)
         = receivedCount (for_lines P N (ls1 @ ls2) s)" for s
  proof -
    let ?s1 = "for_lines P N ls1 s"
    have "streamUsers (for_lines P N (l # ls2) ?s1) = streamUsers (for_lines P N ls2 ?s1)
      \<and> receivedCount (for_lines P N (l # ls2) ?s1) = receivedCount (for_lines P N ls2 ?s1)"
    proof (cases "N \<le> receivedCount ?s1")
      case True
      then show ?thesis by (simp add: for_lines_done)
    next
      case False
      have "streamUsers (line_body P l ?s1) = streamUsers ?s1"
        "receivedCount (line_body P l ?s1) = receivedCount ?s1"
        by (simp_all add: body)
      from for_lines_same_records [OF this, of P N ls2] False show ?thesis by simp
    qed
    then show ?thesis by (simp add: for_lines_append)
  qed
  have report: "ErrorParsingChunk l e \<in> set (console (for_lines P N (ls1 @ l # ls2) s))"
    if lt: "receivedCount (for_lines P N ls1 s) < N" for s
  proof -
    let ?s1 = "for_lines P N ls1 s"
    from lt have "for_lines P N (ls1 @ l # ls2) s = for_lines P N ls2 (line_body P l ?s1)"
      by (simp add: for_lines_append)
    moreover have "ErrorParsingChunk l e \<in> set (console (line_body P l ?s1))"
      by (simp add: body)
    ultimately show ?thesis
      using for_lines_console_mono [of "line_body P l ?s1" P N ls2] by auto
  qed
  have whole: "\<exists>st' b. streamData P N read (fresh_response r) = Some (st', b)
           \<and> streamUsers st' = streamUsers (for_lines P N (ls1 @ ls2) ingest0)
           \<and> receivedCount st' = receivedCount (for_lines P N (ls1 @ ls2) ingest0)
           \<and> (receivedCount (for_lines P N ls1 ingest0) < N \<longrightarrow>
                ErrorParsingChunk l e \<in> set (console st'))
           \<and> (receivedCount st' < N \<longrightarrow>
                (\<forall>x \<in> set (ls1 @ ls2). \<forall>u. js_trim x \<noteq> [] \<and> parse_user P x = Inr u \<longrightarrow>
                   (\<exists>u' \<in> set (streamUsers st'). u' = u \<or> strict_eq (id_of u') (id_of u))))"
    if n: "read_n read k r = Some (cs, r')" and d: "read r' = Done"
      and ls: "\<forall>x \<in> set (ls1 @ l # ls2). newline \<notin> set x" and seg: "newline \<notin> set seg"
      and cat: "concat cs = unlines (ls1 @ l # ls2) @ seg"
  proof -
    from streamData_finite [OF n d ls seg cat, of P N] obtain st' b where
      run: "streamData P N read (fresh_response r) = Some (st', b)"
      and u: "streamUsers st' = streamUsers (for_lines P N (ls1 @ l # ls2) ingest0)"
      and c: "receivedCount st' = receivedCount (for_lines P N (ls1 @ l # ls2) ingest0)"
      and o: "console st' = console (for_lines P N (ls1 @ l # ls2) ingest0)"
      by blast
    from u c skip [of ingest0] have
      u': "streamUsers st' = streamUsers (for_lines P N (ls1 @ ls2) ingest0)"
      and c': "receivedCount st' = receivedCount (for_lines P N (ls1 @ ls2) ingest0)"
      by simp_all
    have rep: "receivedCount (for_lines P N ls1 ingest0) < N \<longrightarrow>
        ErrorParsingChunk l e \<in> set (console st')"
      using report [of ingest0] by (simp add: o)
    have acc: "receivedCount st' < N \<longrightarrow>
        (\<forall>x \<in> set (ls1 @ ls2). \<forall>u. js_trim x \<noteq> [] \<and> parse_user P x = Inr u \<longrightarrow>
          (\<exists>u' \<in> set (streamUsers st'). u' = u \<or> strict_eq (id_of u') (id_of u)))"
    proof (intro ballI allI impI)
      assume that: "receivedCount st' < N"
      fix x u assume x: "x \<in> set (ls1 @ ls2)" and v: "js_trim x \<noteq> [] \<and> parse_user P x = Inr u"
      from that c' have "receivedCount (for_lines P N (ls1 @ ls2) ingest0) < N" by simp
      from for_lines_all_accepted [OF this x] v u'
      show "\<exists>u' \<in> set (streamUsers st'). u' = u \<or> strict_eq (id_of u') (id_of u)"
        by simp
    qed
    from run u' c' rep acc show ?thesis by (intro exI conjI)
  qed
  show ?thesis
  proof (intro conjI)
    show "js_trim blank = [] \<longrightarrow> line_body P blank st = st"
      by (simp add: line_body_def)
    show "line_body P l st = st\<lparr>console := console st @ [ErrorParsingChunk l e]\<rparr>"
      by (rule body)
    show "streamUsers (for_lines P N (ls1 @ l # ls2) st)
        = streamUsers (for_lines P N (ls1 @ ls2) st)"
      using skip [of st] by (rule conjunct1)
    show "receivedCount (for_lines P N (ls1 @ l # ls2) st)
        = receivedCount (for_lines P N (ls1 @ ls2) st)"
      using skip [of st] by (rule conjunct2)
    show "receivedCount (for_lines P N ls1 st) < N \<longrightarrow>
        ErrorParsingChunk l e \<in> set (console (for_lines P N (ls1 @ l # ls2) st))"
      by (rule impI) (rule report)
    show "read_n read k r = Some (cs, r') \<and> read r' = Done
          \<and> (\<forall>x \<in> set (ls1 @ l # ls2). newline \<notin> set x) \<and> newline \<notin> set seg
          \<and> concat cs = unlines (ls1 @ l # ls2) @ seg \<longrightarrow>
        (\<exists>st' b. streamData P N read (fresh_response r) = Some (st', b)
           \<and> streamUsers st' = streamUsers (for_lines P N (ls1 @ ls2) ingest0)
           \<and> receivedCount st' = receivedCount (for_lines P N (ls1 @ ls2) ingest0)
           \<and> (receivedCount (for_lines P N ls1 ingest0) < N \<longrightarrow>
                ErrorParsingChunk l e \<in> set (console st'))
           \<and> (receivedCount st' < N \<longrightarrow>
                (\<forall>x \<in> set (ls1 @ ls2). \<forall>u. js_trim x \<noteq> [] \<and> parse_user P x = Inr u \<longrightarrow>
                   (\<exists>u' \<in> set (streamUsers st'). u' = u \<or> strict_eq (id_of u') (id_of u)))))"
    proof (rule impI, elim conjE)
      assume "read_n read k r = Some (cs, r')" "read r' = Done"
        "\<forall>x \<in> set (ls1 @ l # ls2). newline \<notin> set x" "newline \<notin> set seg"
        "concat cs = unlines (ls1 @ l # ls2) @ seg"
      then show "\<exists>st' b. streamData P N read (fresh_response r) = Some (st', b)
           \<and> streamUsers st' = streamUsers (for_lines P N (ls1 @ ls2) ingest0)
           \<and> receivedCount st' = receivedCount (for_lines P N (ls1 @ ls2) ingest0)
           \<and> (receivedCount (for_lines P N ls1 ingest0) < N \<longrightarrow>
                ErrorParsingChunk l e \<in> set (console st'))
           \<and> (receivedCount st' < N \<longrightarrow>
                (\<forall>x \<in> set (ls1 @ ls2). \<forall>u. js_trim x \<noteq> [] \<and> parse_user P x = Inr u \<longrightarrow>
                   (\<exists>u' \<in> set (streamUsers st'). u' = u \<or> strict_eq (id_of u') (id_of u))))"
        by (rule whole)
    qed
  qed
qed

theorem malformed_line_is_skipped_witness:
  "js_trim line_bad \<noteq> [] \<and> parse_user JSON_parse_sample line_bad = Inl SyntaxError
   \<and> streamUsers (for_lines JSON_parse_sample 5 ([line_a] @ line_bad # [line_b]) ingest0)
       = [user_a, user_b]
   \<and> receivedCount (for_lines JSON_parse_sample 5 [line_a] ingest0) < 5
   \<and> ErrorParsingChunk line_bad SyntaxError
       \<in> set (console (for_lines JSON_parse_sample 5 ([line_a] @ line_bad # [line_b]) ingest0))"
proof -
  have h: "js_trim line_bad \<noteq> []" "parse_user JSON_parse_sample line_bad = Inl SyntaxError"
    by (simp_all add: trim_defs parse_user_def sample_defs)
  have f: "for_lines JSON_parse_sample 5 ([line_a] @ [line_b]) ingest0
     = \<lparr>streamUsers = [user_a, user_b], receivedCount = 2, buffer = [], console = []\<rparr>"
    by (simp add: run_defs sample_defs)
  have lt: "receivedCount (for_lines JSON_parse_sample 5 [line_a] ingest0) < 5"
    by (simp add: run_defs sample_defs)
  note t = malformed_line_is_skipped [OF h, of "[]" ingest0 5 "[line_a]" "[line_b]"]
  note t [THEN conjunct2, THEN conjunct2, THEN conjunct1]
  then have A: "streamUsers (for_lines JSON_parse_sample 5 ([line_a] @ line_bad # [line_b]) ingest0)
       = [user_a, user_b]"
    unfolding f by simp
  note B = t [THEN conjunct2, THEN conjunct2, THEN conjunct2, THEN conjunct2, THEN conjunct1,
      THEN mp, OF lt]
  from h A lt B show ?thesis by (intro conjI)
qed

end
